theory Spec2Isabelle
  imports Complex_Main "HOL-Library.Log_Nat" "HOL-Library.Multiset"
begin

section \<open>Values of the host language\<close>

text \<open>
  Strings are lists of code units; the model covers code units below 256, so the two
  line terminators that can occur are line feed and carriage return.

  A \<open>Date\<close> is its time value: \<open>Some t\<close> is \<open>t\<close> milliseconds since the epoch and
  \<open>None\<close> is the Invalid Date, whose \<open>getTime()\<close> is NaN.
\<close>

type_synonym timeval = "int option"

text \<open>
  What the components take from the runtime and not from the repository: the clock
  (\<open>clock p i\<close> is the instant returned by the \<open>i\<close>-th \<open>new Date()\<close> of one handler
  run), \<open>Date.prototype.toISOString\<close>, the date parser behind \<open>new Date(string)\<close>,
  the local-calendar step \<open>d.setDate(start.getDate() + n)\<close> on a copy \<open>d\<close> of
  \<open>start\<close>, and \<open>String.prototype.localeCompare\<close>.
\<close>

record platform =
  clock :: "nat \<Rightarrow> int"
  toISOString :: "int \<Rightarrow> string"
  parseDate :: "string \<Rightarrow> timeval"
  addDays :: "timeval \<Rightarrow> nat \<Rightarrow> timeval"
  localeCompare :: "string \<Rightarrow> string \<Rightarrow> int"

text \<open>Truthiness of an optional string, and \<open>a || b\<close> on optional strings.\<close>

definition truthy :: "string option \<Rightarrow> bool" where
  "truthy a = (case a of None \<Rightarrow> False | Some s \<Rightarrow> s \<noteq> [])"

definition or_default :: "string option \<Rightarrow> string \<Rightarrow> string" where
  "or_default a b = (case a of None \<Rightarrow> b | Some s \<Rightarrow> if s \<noteq> [] then s else b)"

text \<open>An optional string inside a template literal: \<open>undefined\<close> prints as its name.\<close>

definition template_str :: "string option \<Rightarrow> string" where
  "template_str a = (case a of None \<Rightarrow> ''undefined'' | Some s \<Rightarrow> s)"

text \<open>
  A string that \<open>!==\<close> compares may be missing in two ways the comparison tells apart:
  \<open>undefined\<close> (a key that is not there, a profile that is not loaded) and \<open>null\<close>
  (an empty column of the store). Both are falsy, as is the empty string.
\<close>

datatype jstring = JSUndefined | JSNull | JSString string

definition js_truthy :: "jstring \<Rightarrow> bool" where
  "js_truthy a = (case a of JSString s \<Rightarrow> s \<noteq> [] | _ \<Rightarrow> False)"

text \<open>\<open>a || b\<close> with \<open>b\<close> a value that may be missing, and with \<open>b\<close> a string literal.\<close>

definition js_or :: "jstring \<Rightarrow> jstring \<Rightarrow> jstring" where
  "js_or a b = (if js_truthy a then a else b)"

definition js_or_default :: "jstring \<Rightarrow> string \<Rightarrow> string" where
  "js_or_default a b = (case a of JSString s \<Rightarrow> if s \<noteq> [] then s else b | _ \<Rightarrow> b)"

subsection \<open>Binary64 arithmetic\<close>

text \<open>
  \<open>Number\<close> division, multiplication and addition round the exact result to the nearest
  binary64 value, ties to even. \<open>fl\<close> is that rounding on the non-negative rationals
  below the overflow threshold (the operands the progress formula produces lie in
  \<open>[0, 101)\<close>); exponents below \<open>-1022\<close> are subnormal. \<open>fl_signed\<close> extends it to
  the negative rationals, where the rounding is the mirror image. \<open>Math.round\<close> returns
  the nearest integer, a tie going towards \<open>+\<infinity>\<close>.
\<close>

definition pow2 :: "int \<Rightarrow> rat" where
  "pow2 e = (if 0 \<le> e then 2 ^ nat e else 1 / 2 ^ nat (- e))"

definition floor_log2 :: "rat \<Rightarrow> int" where
  "floor_log2 x = (let (a, b) = quotient_of x; d = bitlen a - bitlen b
                   in if pow2 d \<le> x then d else d - 1)"

definition round_half_even :: "rat \<Rightarrow> int" where
  "round_half_even q = (let f = \<lfloor>q\<rfloor>; r = q - of_int f
     in if r < 1 / 2 then f else if 1 / 2 < r then f + 1 else if even f then f else f + 1)"

definition fl :: "rat \<Rightarrow> rat" where
  "fl x = (if x \<le> 0 then 0 else
     let e = max (floor_log2 x) (- 1022)
     in of_int (round_half_even (x / pow2 (e - 52))) * pow2 (e - 52))"

definition fl_signed :: "rat \<Rightarrow> rat" where
  "fl_signed x = (if x < 0 then - fl (- x) else fl x)"

definition number_divide :: "rat \<Rightarrow> rat \<Rightarrow> rat" where
  "number_divide a b = fl (a / b)"

definition number_multiply :: "rat \<Rightarrow> rat \<Rightarrow> rat" where
  "number_multiply a b = fl (a * b)"

text \<open>
  The sum of two integer-valued Numbers. The binary64 value nearest to an integer is an
  integer itself, which the floor reads back; up to \<open>2^53\<close> in magnitude the sum is
  exact, and beyond that it is rounded to a multiple of a power of two.
\<close>

definition number_add :: "int \<Rightarrow> int \<Rightarrow> int" where
  "number_add a b = \<lfloor>fl_signed (of_int a + of_int b)\<rfloor>"

definition Math_round :: "rat \<Rightarrow> int" where
  "Math_round x = \<lfloor>x + 1 / 2\<rfloor>"

section \<open>Data model\<close>

text \<open>
  Modelled from the spec: the declarations of \<open>JourneyStep\<close>, \<open>CampaignData\<close>,
  \<open>UserProfile\<close> and \<open>Contact\<close> (the module \<open>types\<close>) are not among the sources.
  The fields are those of the spec's data model under the names the code reads them by;
  a field the code guards with \<open>||\<close> or \<open>?.\<close> is optional. The owner of a step and
  the two names of a profile are compared with \<open>!==\<close>, so they keep \<open>undefined\<close> and
  \<open>null\<close> apart. Points are integer-valued Numbers, and their sums stay below the
  overflow threshold of the format.
\<close>

record JourneyStep =
  step_id :: string
  step_type :: string
  step_day :: nat
  step_title :: string
  step_description :: string
  step_completed :: bool
  step_points :: "int option"
  step_owner :: jstring
  step_targetContactName :: "string option"

record CampaignData =
  camp_id :: "string option"
  camp_name :: string
  camp_targetCompany :: "string option"
  camp_objective :: "string option"
  camp_status :: "string option"
  camp_open :: "string option"
  camp_steps :: "JourneyStep list option"
  camp_created_at :: "string option"

record UserProfile =
  full_name :: jstring
  email :: jstring

text \<open>The interface \<open>FlatTask\<close> of the task page.\<close>

record FlatTask =
  task_id :: string
  task_type :: string
  task_title :: string
  task_description :: string
  task_date :: timeval
  task_completed :: bool
  task_campaignId :: string
  task_campaignName :: string
  task_companyName :: string
  task_owner :: string
  task_targetContactName :: "string option"
  task_points :: "int option"

text \<open>
  An object literal sent to the record store is the list of its keys and values, in the
  order written.
\<close>

datatype jvalue = JUndefined | JNum int | JStr string | JSteps "JourneyStep list"

type_synonym payload = "(string \<times> jvalue) list"

definition jstr_opt :: "string option \<Rightarrow> jvalue" where
  "jstr_opt a = (case a of None \<Rightarrow> JUndefined | Some s \<Rightarrow> JStr s)"

section \<open>Campaign Aggregator\<close>

text \<open>\<open>steps.filter(s => s.type !== 'Wait')\<close>\<close>

definition activeSteps :: "JourneyStep list \<Rightarrow> JourneyStep list" where
  "activeSteps ss = filter (\<lambda>s. step_type s \<noteq> ''Wait'') ss"

text \<open>\<open>activeSteps.filter(s => s.completed).length\<close>\<close>

definition completedSteps :: "JourneyStep list \<Rightarrow> nat" where
  "completedSteps ss = length (filter step_completed (activeSteps ss))"

text \<open>\<open>s.points || 0\<close>\<close>

definition points_or_0 :: "JourneyStep \<Rightarrow> int" where
  "points_or_0 s = (case step_points s of None \<Rightarrow> 0 | Some p \<Rightarrow> if p \<noteq> 0 then p else 0)"

text \<open>\<open>steps.reduce((acc, s) => s.completed ? acc + (s.points || 0) : acc, 0)\<close>\<close>

definition reduce_points :: "JourneyStep list \<Rightarrow> int" where
  "reduce_points ss =
     fold (\<lambda>s acc. if step_completed s then number_add acc (points_or_0 s) else acc) ss 0"

text \<open>\<open>Math.round((completedSteps / totalSteps) * 100)\<close>\<close>

definition percent :: "nat \<Rightarrow> nat \<Rightarrow> int" where
  "percent k n = Math_round (number_multiply (number_divide (of_nat k) (of_nat n)) 100)"

text \<open>
  The three numbers \<open>handleSaveCampaign\<close> computes before it builds the payload:
  \<open>(sentCount, calculatedPoints, calculatedProgress)\<close>.
\<close>

definition save_aggregates :: "JourneyStep list option \<Rightarrow> nat \<times> int \<times> int" where
  "save_aggregates st =
     (case st of
        None \<Rightarrow> (0, 0, 0)
      | Some ss \<Rightarrow>
          if length ss > 0 then
            (let totalSteps = length (activeSteps ss);
                 sentCount = completedSteps ss;
                 calculatedPoints = reduce_points ss;
                 calculatedProgress = (if totalSteps > 0 then percent sentCount totalSteps else 0)
             in (sentCount, calculatedPoints, calculatedProgress))
          else (0, 0, 0))"

text \<open>
  \<open>handleSaveCampaign\<close> up to the \<open>upsert\<close> call: \<open>None\<close> when there is no signed-in
  user, otherwise the payload handed to the store. The first clock reading stamps
  \<open>updated_at\<close>, the second one \<open>created_at\<close> of a campaign that carries none.
\<close>

definition handleSaveCampaign :: "platform \<Rightarrow> string option \<Rightarrow> CampaignData \<Rightarrow> payload option" where
  "handleSaveCampaign p user_id campaign =
     (if \<not> truthy user_id then None
      else
        (let (sentCount, calculatedPoints, calculatedProgress) = save_aggregates (camp_steps campaign);
             campaignPayload =
               [(''name'', JStr (camp_name campaign)),
                (''target_company'', jstr_opt (camp_targetCompany campaign)),
                (''objective'', jstr_opt (camp_objective campaign)),
                (''status'', JStr (or_default (camp_status campaign) ''Active'')),
                (''progress'', JNum calculatedProgress),
                (''sent'', JNum (int sentCount)),
                (''open_rate'', JStr (or_default (camp_open campaign) ''0%'')),
                (''total_points'', JNum calculatedPoints),
                (''user_id'', jstr_opt user_id),
                (''steps'', JSteps (case camp_steps campaign of None \<Rightarrow> [] | Some ss \<Rightarrow> ss)),
                (''updated_at'', JStr (toISOString p (clock p 0)))];
             created =
               (if truthy (camp_created_at campaign) then jstr_opt (camp_created_at campaign)
                else JStr (toISOString p (clock p 1)));
             isUpdate = (truthy (camp_id campaign) \<and> take 5 (template_str (camp_id campaign)) \<noteq> ''camp-'')
         in Some (campaignPayload @ [(''created_at'', created)]
                  @ (if isUpdate then [(''id'', jstr_opt (camp_id campaign))] else []))))"

section \<open>Toggle-completion action\<close>

text \<open>\<open>campaign.steps.map(s => s.id === task.id ? { ...s, completed: !s.completed } : s)\<close>\<close>

definition updatedSteps :: "string \<Rightarrow> JourneyStep list \<Rightarrow> JourneyStep list" where
  "updatedSteps tid ss =
     map (\<lambda>s. if step_id s = tid then s\<lparr>step_completed := \<not> step_completed s\<rparr> else s) ss"

text \<open>
  \<open>handleCompleteTask\<close> up to the \<open>update\<close> call: \<open>None\<close> when the campaign is not
  found or has no step list, otherwise the campaign id the update is addressed to and the
  object it writes.
\<close>

definition handleCompleteTask :: "platform \<Rightarrow> CampaignData list \<Rightarrow> FlatTask \<Rightarrow> (string \<times> payload) option" where
  "handleCompleteTask p campaigns task =
     (case find (\<lambda>c. camp_id c = Some (task_campaignId task)) campaigns of
        None \<Rightarrow> None
      | Some campaign \<Rightarrow>
          (case camp_steps campaign of
             None \<Rightarrow> None
           | Some ss \<Rightarrow>
               (let upd = updatedSteps (task_id task) ss;
                    totalSteps = length (activeSteps upd);
                    completed = completedSteps upd;
                    progress = (if totalSteps > 0 then percent completed totalSteps else 0);
                    totalPoints = reduce_points upd
                in Some (task_campaignId task,
                         [(''steps'', JSteps upd),
                          (''progress'', JNum progress),
                          (''sent'', JNum (int completed)),
                          (''total_points'', JNum totalPoints),
                          (''updated_at'', JStr (toISOString p (clock p 0)))]))))"

text \<open>The object a toggle writes, as an update of one row.\<close>

definition toggle_payload :: "platform \<Rightarrow> string \<Rightarrow> JourneyStep list \<Rightarrow> payload" where
  "toggle_payload p tid ss =
     [(''steps'', JSteps (updatedSteps tid ss)),
      (''progress'', JNum (snd (snd (save_aggregates (Some (updatedSteps tid ss)))))),
      (''sent'', JNum (int (fst (save_aggregates (Some (updatedSteps tid ss)))))),
      (''total_points'', JNum (fst (snd (save_aggregates (Some (updatedSteps tid ss)))))),
      (''updated_at'', JStr (toISOString p (clock p 0)))]"

text \<open>The spec's aggregate: the sum of the points of the completed steps, of every kind.\<close>

definition spec_totalPoints :: "JourneyStep list \<Rightarrow> int" where
  "spec_totalPoints ss =
     sum_list (map (\<lambda>s. case step_points s of None \<Rightarrow> 0 | Some p \<Rightarrow> p) (filter step_completed ss))"

text \<open>The points of the completed steps of a list, added up in absolute value.\<close>

definition points_magnitude :: "JourneyStep list \<Rightarrow> int" where
  "points_magnitude ss = sum_list (map (\<lambda>s. \<bar>points_or_0 s\<bar>) (filter step_completed ss))"

text \<open>
  The spec's progress: the percentage rounded to the nearest integer, a tie going away from
  zero, and 0 for a campaign without active steps.
\<close>

definition round_half_away :: "rat \<Rightarrow> int" where
  "round_half_away x = (if 0 \<le> x then \<lfloor>x + 1 / 2\<rfloor> else - \<lfloor>- x + 1 / 2\<rfloor>)"

definition spec_progress :: "nat \<Rightarrow> nat \<Rightarrow> int" where
  "spec_progress k n = (if n > 0 then round_half_away (100 * of_nat k / of_nat n) else 0)"

section \<open>Record store\<close>

text \<open>
  The record store is outside the repository. A row of the table \<open>campaigns\<close> has the
  columns the two writers and the readers name; \<open>update(obj)\<close> and \<open>upsert(obj)\<close>
  assign the columns that are keys of \<open>obj\<close> and leave every other column as it is
  (a key whose value is \<open>undefined\<close> is not sent), and \<open>.eq('id', v)\<close> restricts an
  update to the rows whose id is \<open>v\<close>.
\<close>

record campaign_row =
  row_id :: string
  row_name :: string
  row_target_company :: "string option"
  row_objective :: "string option"
  row_status :: "string option"
  row_progress :: int
  row_sent :: int
  row_open_rate :: "string option"
  row_total_points :: int
  row_user_id :: string
  row_steps :: "JourneyStep list option"
  row_created_at :: "string option"
  row_updated_at :: "string option"

definition set_column :: "string \<times> jvalue \<Rightarrow> campaign_row \<Rightarrow> campaign_row" where
  "set_column kv r =
     (case kv of
        (k, JUndefined) \<Rightarrow> r
      | (k, JStr s) \<Rightarrow>
          (if k = ''id'' then r\<lparr>row_id := s\<rparr>
           else if k = ''name'' then r\<lparr>row_name := s\<rparr>
           else if k = ''target_company'' then r\<lparr>row_target_company := Some s\<rparr>
           else if k = ''objective'' then r\<lparr>row_objective := Some s\<rparr>
           else if k = ''status'' then r\<lparr>row_status := Some s\<rparr>
           else if k = ''open_rate'' then r\<lparr>row_open_rate := Some s\<rparr>
           else if k = ''user_id'' then r\<lparr>row_user_id := s\<rparr>
           else if k = ''created_at'' then r\<lparr>row_created_at := Some s\<rparr>
           else if k = ''updated_at'' then r\<lparr>row_updated_at := Some s\<rparr>
           else r)
      | (k, JNum n) \<Rightarrow>
          (if k = ''progress'' then r\<lparr>row_progress := n\<rparr>
           else if k = ''sent'' then r\<lparr>row_sent := n\<rparr>
           else if k = ''total_points'' then r\<lparr>row_total_points := n\<rparr>
           else r)
      | (k, JSteps ss) \<Rightarrow> (if k = ''steps'' then r\<lparr>row_steps := Some ss\<rparr> else r))"

definition update_row :: "payload \<Rightarrow> campaign_row \<Rightarrow> campaign_row" where
  "update_row pl r = fold set_column pl r"

text \<open>\<open>supabase.from('campaigns').update(pl).eq('id', cid)\<close>\<close>

definition db_update :: "payload \<Rightarrow> string \<Rightarrow> campaign_row list \<Rightarrow> campaign_row list" where
  "db_update pl cid db = map (\<lambda>r. if row_id r = cid then update_row pl r else r) db"

text \<open>
  \<open>fetchCampaigns\<close> of the task page: the rows of the user, each mapped to the fields the
  page keeps (\<open>steps: c.steps || []\<close>). Without a user id nothing is loaded.
\<close>

definition row_to_campaign :: "campaign_row \<Rightarrow> CampaignData" where
  "row_to_campaign c =
     \<lparr>camp_id = Some (row_id c), camp_name = row_name c,
      camp_targetCompany = row_target_company c, camp_objective = None,
      camp_status = row_status c, camp_open = None,
      camp_steps = Some (case row_steps c of None \<Rightarrow> [] | Some ss \<Rightarrow> ss),
      camp_created_at = row_created_at c\<rparr>"

definition fetchCampaigns :: "string option \<Rightarrow> campaign_row list \<Rightarrow> CampaignData list" where
  "fetchCampaigns userId db =
     (if \<not> truthy userId then []
      else map row_to_campaign (filter (\<lambda>r. Some (row_user_id r) = userId) db))"

text \<open>
  One run of the toggle on the task page, on the store: the page's campaigns are those
  last fetched, the update goes to the store, and \<open>onRefresh\<close> fetches again.
\<close>

definition complete_task :: "platform \<Rightarrow> string option \<Rightarrow> FlatTask \<Rightarrow> campaign_row list \<Rightarrow> campaign_row list" where
  "complete_task p userId task db =
     (case handleCompleteTask p (fetchCampaigns userId db) task of
        None \<Rightarrow> db
      | Some (cid, pl) \<Rightarrow> db_update pl cid db)"

section \<open>Task Projector\<close>

text \<open>\<open>currentUserProfile?.full_name || currentUserProfile?.email\<close>\<close>

definition currentUserName :: "UserProfile option \<Rightarrow> jstring" where
  "currentUserName prof =
     (case prof of None \<Rightarrow> js_or JSUndefined JSUndefined | Some u \<Rightarrow> js_or (full_name u) (email u))"

text \<open>\<open>camp.created_at ? new Date(camp.created_at) : new Date()\<close>, with the clock index.\<close>

definition campaign_start :: "platform \<Rightarrow> nat \<Rightarrow> CampaignData \<Rightarrow> timeval \<times> nat" where
  "campaign_start p i camp =
     (if truthy (camp_created_at camp) then (parseDate p (or_default (camp_created_at camp) []), i)
      else (Some (clock p i), Suc i))"

definition unassigned :: string where
  "unassigned = ''N'' @ [CHR 0xE3] @ ''o atribu'' @ [CHR 0xED] @ ''do''"

definition mk_task :: "platform \<Rightarrow> timeval \<Rightarrow> CampaignData \<Rightarrow> JourneyStep \<Rightarrow> FlatTask" where
  "mk_task p startDate camp step =
     \<lparr>task_id = step_id step, task_type = step_type step, task_title = step_title step,
      task_description = step_description step,
      task_date = addDays p startDate (step_day step),
      task_completed = step_completed step,
      task_campaignId = or_default (camp_id camp) [],
      task_campaignName = camp_name camp,
      task_companyName = or_default (camp_targetCompany camp) [],
      task_owner = js_or_default (step_owner step) unassigned,
      task_targetContactName = step_targetContactName step,
      task_points = step_points step\<rparr>"

text \<open>The body of \<open>camp.steps.forEach\<close>: one step, appended to the tasks or skipped.\<close>

definition push_step :: "platform \<Rightarrow> jstring \<Rightarrow> timeval \<Rightarrow> CampaignData \<Rightarrow> JourneyStep \<Rightarrow> FlatTask list \<Rightarrow> FlatTask list" where
  "push_step p viewer startDate camp step tasks =
     (if step_type step \<noteq> ''Wait'' then
        (if step_owner step \<noteq> viewer then tasks
         else tasks @ [mk_task p startDate camp step])
      else tasks)"

text \<open>The body of \<open>campaigns.forEach\<close>, on the tasks so far and the clock index.\<close>

definition push_campaign :: "platform \<Rightarrow> jstring \<Rightarrow> CampaignData \<Rightarrow> FlatTask list \<times> nat \<Rightarrow> FlatTask list \<times> nat" where
  "push_campaign p viewer camp st =
     (case st of (tasks, i) \<Rightarrow>
        (case camp_steps camp of
           None \<Rightarrow> (tasks, i)
         | Some ss \<Rightarrow>
             (case campaign_start p i camp of (startDate, i') \<Rightarrow>
                (fold (push_step p viewer startDate camp) ss tasks, i'))))"

definition allTasks :: "platform \<Rightarrow> UserProfile option \<Rightarrow> CampaignData list \<Rightarrow> FlatTask list" where
  "allTasks p prof campaigns =
     fst (fold (push_campaign p (currentUserName prof)) campaigns ([], 0))"

subsection \<open>Filter and sort\<close>

datatype task_filter = All | Pending | Completed

datatype sort_method = ByDate | ByRecipient

text \<open>
  \<open>Array.prototype.sort\<close> is stable and calls the comparator on pairs; a comparator
  value of NaN counts as \<open>+0\<close>. For a consistent comparator every stable sort returns the
  same array; the model is insertion sort, the first element inserted last, each element
  placed before the first one it does not compare greater than.
\<close>

definition sort_compare :: "('a \<Rightarrow> 'a \<Rightarrow> int option) \<Rightarrow> 'a \<Rightarrow> 'a \<Rightarrow> int" where
  "sort_compare cmp x y = (case cmp x y of None \<Rightarrow> 0 | Some v \<Rightarrow> v)"

fun js_insert :: "('a \<Rightarrow> 'a \<Rightarrow> int option) \<Rightarrow> 'a \<Rightarrow> 'a list \<Rightarrow> 'a list" where
  "js_insert cmp x [] = [x]"
| "js_insert cmp x (y # ys) =
     (if sort_compare cmp x y \<le> 0 then x # y # ys else y # js_insert cmp x ys)"

definition js_sort :: "('a \<Rightarrow> 'a \<Rightarrow> int option) \<Rightarrow> 'a list \<Rightarrow> 'a list" where
  "js_sort cmp xs = foldr (js_insert cmp) xs []"

text \<open>
  \<open>a.getTime() - b.getTime()\<close>: NaN when either date is invalid. The difference of two
  time values has the sign of the exact difference, which is all the sort reads.
\<close>

definition time_diff :: "timeval \<Rightarrow> timeval \<Rightarrow> int option" where
  "time_diff a b = (case a of None \<Rightarrow> None | Some x \<Rightarrow> (case b of None \<Rightarrow> None | Some y \<Rightarrow> Some (x - y)))"

text \<open>\<open>a.targetContactName || a.companyName || ''\<close>\<close>

definition recipient :: "FlatTask \<Rightarrow> string" where
  "recipient t = or_default (Some (or_default (task_targetContactName t) (task_companyName t))) []"

definition task_compare :: "platform \<Rightarrow> sort_method \<Rightarrow> FlatTask \<Rightarrow> FlatTask \<Rightarrow> int option" where
  "task_compare p sortMethod a b =
     (case sortMethod of
        ByDate \<Rightarrow> time_diff (task_date a) (task_date b)
      | ByRecipient \<Rightarrow> Some (localeCompare p (recipient a) (recipient b)))"

definition keep_task :: "task_filter \<Rightarrow> FlatTask \<Rightarrow> bool" where
  "keep_task flt t =
     (case flt of Pending \<Rightarrow> \<not> task_completed t | Completed \<Rightarrow> task_completed t | All \<Rightarrow> True)"

definition displayedTasks :: "platform \<Rightarrow> task_filter \<Rightarrow> sort_method \<Rightarrow> FlatTask list \<Rightarrow> FlatTask list" where
  "displayedTasks p flt sortMethod tasks =
     js_sort (task_compare p sortMethod) (filter (keep_task flt) tasks)"

text \<open>
  What a comparator says about order: \<open>x\<close> may stand before \<open>y\<close> when it does not
  compare greater. A comparator is consistent on a set when that relation is total and
  transitive there; the language fixes the result of \<open>sort\<close> only for such comparators.
\<close>

definition before :: "('a \<Rightarrow> 'a \<Rightarrow> int option) \<Rightarrow> 'a \<Rightarrow> 'a \<Rightarrow> bool" where
  "before cmp x y = (sort_compare cmp x y \<le> 0)"

definition consistent_on :: "('a \<Rightarrow> 'a \<Rightarrow> int option) \<Rightarrow> 'a set \<Rightarrow> bool" where
  "consistent_on cmp A =
     ((\<forall>x\<in>A. \<forall>y\<in>A. before cmp x y \<or> before cmp y x)
      \<and> (\<forall>x\<in>A. \<forall>y\<in>A. \<forall>z\<in>A. before cmp x y \<and> before cmp y z \<longrightarrow> before cmp x z))"

section \<open>Contact notes and the history tag\<close>

text \<open>
  Modelled from the spec: the declaration of \<open>Contact\<close> is not among the sources. The
  fields are the ones \<open>handleSave\<close> writes; the page's \<open>initialData\<close> makes the notes a
  string.
\<close>

record ContactData =
  contact_name :: string
  contact_role :: "string option"
  contact_company :: "string option"
  contact_email :: "string option"
  contact_phone :: string
  contact_linkedin :: string
  contact_instagram :: string
  contact_avatar :: "string option"
  contact_notes :: string

text \<open>
  \<open>handleSave\<close> up to the \<open>update\<close> call: the object written to the contact and the
  page's new \<open>data\<close>. \<open>data\<close> is the contact as last saved, \<open>formData\<close> the edit.
\<close>

definition companyChanged :: "ContactData \<Rightarrow> ContactData \<Rightarrow> bool" where
  "companyChanged data formData =
     (truthy (contact_company data) \<and> truthy (contact_company formData)
      \<and> contact_company data \<noteq> contact_company formData)"

definition moved_message :: "ContactData \<Rightarrow> ContactData \<Rightarrow> string" where
  "moved_message data formData =
     ''Mudou da empresa '' @ template_str (contact_company data)
       @ '' para '' @ template_str (contact_company formData)"

definition updatedNotes :: "platform \<Rightarrow> ContactData \<Rightarrow> ContactData \<Rightarrow> string" where
  "updatedNotes p data formData =
     (if companyChanged data formData then
        contact_notes formData @ [CHR 0x0A] @ ''[HISTORY:MOVED:'' @ toISOString p (clock p 0)
          @ ''] '' @ moved_message data formData
      else contact_notes formData)"

definition handleSave :: "platform \<Rightarrow> ContactData \<Rightarrow> ContactData \<Rightarrow> payload \<times> ContactData" where
  "handleSave p data formData =
     (let notes = updatedNotes p data formData;
          i = (if companyChanged data formData then 1 else 0)
      in ([(''name'', JStr (contact_name formData)),
           (''role'', jstr_opt (contact_role formData)),
           (''company'', jstr_opt (contact_company formData)),
           (''email'', jstr_opt (contact_email formData)),
           (''phone'', JStr (contact_phone formData)),
           (''linkedin'', JStr (contact_linkedin formData)),
           (''instagram'', JStr (contact_instagram formData)),
           (''avatar'', jstr_opt (contact_avatar formData)),
           (''notes'', JStr notes),
           (''updated_at'', JStr (toISOString p (clock p i)))],
          formData\<lparr>contact_notes := notes\<rparr>))"

subsection \<open>The tag grammar\<close>

text \<open>
  The regular expression \<open>/\[HISTORY:MOVED:(.*?)\] (.*)/g\<close>. A dot matches any code
  unit but a line terminator. \<open>lazy_date\<close> is \<open>(.*?)\] \<close>: the shortest run of dots
  after which \<open>] \<close> follows, with what comes after it; \<open>(.*)\<close> then takes the rest of
  the line and cannot fail, so the first \<open>] \<close> is the one taken.
\<close>

definition is_line_terminator :: "char \<Rightarrow> bool" where
  "is_line_terminator c = (c = CHR 0x0A \<or> c = CHR 0x0D)"

fun lazy_date :: "string \<Rightarrow> (string \<times> string) option" where
  "lazy_date [] = None"
| "lazy_date (c # cs) =
     (if c = CHR '']'' \<and> take 1 cs = '' '' then Some ([], drop 1 cs)
      else if is_line_terminator c then None
      else (case lazy_date cs of None \<Rightarrow> None | Some (d, r) \<Rightarrow> Some (c # d, r)))"

text \<open>A match that starts at the head of the string: the two groups and what follows.\<close>

definition match_at :: "string \<Rightarrow> (string \<times> string \<times> string) option" where
  "match_at s =
     (if take 15 s = ''[HISTORY:MOVED:'' then
        (case lazy_date (drop 15 s) of
           None \<Rightarrow> None
         | Some (d, r) \<Rightarrow>
             Some (d, takeWhile (\<lambda>c. \<not> is_line_terminator c) r,
                   dropWhile (\<lambda>c. \<not> is_line_terminator c) r))
      else None)"

text \<open>
  The loop \<open>while ((match = historyRegex.exec(notes)) !== null)\<close>: the leftmost match
  from \<open>lastIndex\<close> on, then on from its end.
\<close>

function history_matches :: "string \<Rightarrow> (string \<times> string) list" where
  "history_matches s =
     (if s = [] then []
      else (case match_at s of
              None \<Rightarrow> history_matches (tl s)
            | Some (d, m, rest) \<Rightarrow> (d, m) # history_matches rest))"
  by pat_completeness auto
termination
proof (relation "measure length")
  show "wf (measure length)" by simp
next
  fix s :: string
  assume "s \<noteq> []"
  then show "(tl s, s) \<in> measure length" by (cases s) auto
next
  fix s :: string and x2 d y m rest
  assume s: "s \<noteq> []" and m: "match_at s = Some x2" and x2: "(d, y) = x2" and y: "(m, rest) = y"
  have lazy: "lazy_date r = Some (a, b) \<Longrightarrow> length b < length r" for r a b
    by (induction r arbitrary: a b) (auto split: if_splits option.splits)
  from m x2 y obtain r where r: "lazy_date (drop 15 s) = Some (d, r)"
    and rest: "rest = dropWhile (\<lambda>c. \<not> is_line_terminator c) r"
    by (auto simp: match_at_def split: if_splits option.splits)
  have "length rest \<le> length r" unfolding rest by (rule length_dropWhile_le)
  also have "length r < length (drop 15 s)" using lazy [OF r] .
  also have "\<dots> \<le> length s" by simp
  finally show "(rest, s) \<in> measure length" by simp
qed

declare history_matches.simps [simp del]

section \<open>Timeline Reconstructor\<close>

record TimelineItem =
  item_id :: string
  item_type :: string
  item_date :: timeval
  item_title :: string
  item_description :: string
  item_icon :: string
  item_color :: string

definition creation_item :: "timeval \<Rightarrow> TimelineItem" where
  "creation_item d =
     \<lparr>item_id = ''creation'', item_type = ''creation'', item_date = d,
      item_title = ''Contato Criado'',
      item_description = ''Adicionado '' @ [CHR 0xE0] @ '' plataforma'',
      item_icon = ''person_add'', item_color = ''bg-slate-200 text-slate-600''\<rparr>"

definition joined_item :: "timeval \<Rightarrow> CampaignData \<Rightarrow> TimelineItem" where
  "joined_item d camp =
     \<lparr>item_id = ''camp-'' @ template_str (camp_id camp), item_type = ''campaign'', item_date = d,
      item_title = ''Ingressou na Campanha: '' @ camp_name camp,
      item_description = ''Objetivo: '' @ template_str (camp_objective camp),
      item_icon = ''rocket_launch'', item_color = ''bg-blue-100 text-blue-600''\<rparr>"

definition done_item :: "timeval \<Rightarrow> JourneyStep \<Rightarrow> TimelineItem" where
  "done_item d step =
     \<lparr>item_id = ''task-'' @ step_id step, item_type = ''campaign'', item_date = d,
      item_title = ''Tarefa Conclu'' @ [CHR 0xED] @ ''da: '' @ step_title step,
      item_description = ''Executado por: '' @ js_or_default (step_owner step) ''Sistema'',
      item_icon = ''check_circle'', item_color = ''bg-green-100 text-green-600''\<rparr>"

definition moved_item :: "platform \<Rightarrow> string \<times> string \<Rightarrow> TimelineItem" where
  "moved_item p dm =
     (case dm of (dateStr, message) \<Rightarrow>
        \<lparr>item_id = ''hist-'' @ dateStr, item_type = ''job_change'',
         item_date = parseDate p dateStr,
         item_title = ''Mudan'' @ [CHR 0xE7] @ ''a de Empresa'',
         item_description = message,
         item_icon = ''domain_disabled'', item_color = ''bg-orange-100 text-orange-600''\<rparr>)"

text \<open>The body of the inner \<open>camp.steps.forEach\<close> of the timeline.\<close>

definition push_done :: "platform \<Rightarrow> string \<Rightarrow> timeval \<Rightarrow> JourneyStep \<Rightarrow> TimelineItem list \<Rightarrow> TimelineItem list" where
  "push_done p name startDate step items =
     (let isTarget = (\<not> truthy (step_targetContactName step) \<or> step_targetContactName step = Some name)
      in if step_completed step \<and> isTarget
         then items @ [done_item (addDays p startDate (step_day step)) step]
         else items)"

text \<open>
  The body of \<open>relatedCampaigns.forEach\<close>: the campaign's own event, then its completed
  steps. A campaign without \<open>created_at\<close> reads the clock once for its event and once
  more for the start date of its steps.
\<close>

definition push_related :: "platform \<Rightarrow> string \<Rightarrow> CampaignData \<Rightarrow> TimelineItem list \<times> nat \<Rightarrow> TimelineItem list \<times> nat" where
  "push_related p name camp st =
     (case st of (items, i) \<Rightarrow>
        (case campaign_start p i camp of (d, i1) \<Rightarrow>
           (let items1 = items @ [joined_item d camp]
            in (case camp_steps camp of
                  None \<Rightarrow> (items1, i1)
                | Some ss \<Rightarrow>
                    (case campaign_start p i1 camp of (startDate, i2) \<Rightarrow>
                       (fold (push_done p name startDate) ss items1, i2))))))"

text \<open>The events before the final sort, in insertion order.\<close>

definition timeline_events :: "platform \<Rightarrow> ContactData \<Rightarrow> CampaignData list \<Rightarrow> TimelineItem list" where
  "timeline_events p data relatedCampaigns =
     fst (fold (push_related p (contact_name data)) relatedCampaigns
            ([creation_item (Some (clock p 0))], 1))
       @ (if contact_notes data \<noteq> [] then map (moved_item p) (history_matches (contact_notes data)) else [])"

text \<open>\<open>(a, b) => b.date.getTime() - a.date.getTime()\<close>\<close>

definition newest_first :: "TimelineItem \<Rightarrow> TimelineItem \<Rightarrow> int option" where
  "newest_first a b = time_diff (item_date b) (item_date a)"

definition timelineItems :: "platform \<Rightarrow> ContactData \<Rightarrow> CampaignData list \<Rightarrow> TimelineItem list" where
  "timelineItems p data relatedCampaigns =
     js_sort newest_first (timeline_events p data relatedCampaigns)"

section \<open>Example data\<close>

text \<open>
  A platform on which the examples run: the clock ticks one millisecond per reading from
  2024-06-01T00:00:00Z (the first reading prints as that instant, the later ones as the
  millisecond after it), a calendar day is 86400000 ms (UTC) and a date past the largest
  time value (8.64e15 ms) is invalid, three ISO strings parse and every other string is an
  Invalid Date, and strings compare by code unit.
\<close>

fun code_unit_compare :: "string \<Rightarrow> string \<Rightarrow> int" where
  "code_unit_compare [] [] = 0"
| "code_unit_compare [] (b # bs) = - 1"
| "code_unit_compare (a # as) [] = 1"
| "code_unit_compare (a # as) (b # bs) =
     (if (of_char a :: nat) < of_char b then - 1
      else if (of_char b :: nat) < of_char a then 1
      else code_unit_compare as bs)"

definition example_parse :: "string \<Rightarrow> timeval" where
  "example_parse s =
     (if s = ''2024-01-01T00:00:00.000Z'' then Some 1704067200000
      else if s = ''2024-03-01T00:00:00.000Z'' then Some 1709251200000
      else if s = ''2024-06-01T00:00:00.000Z'' then Some 1717200000000
      else None)"

definition example_platform :: platform where
  "example_platform =
     \<lparr>clock = (\<lambda>i. 1717200000000 + int i),
      toISOString = (\<lambda>t. if t = 1717200000000 then ''2024-06-01T00:00:00.000Z''
                         else ''2024-06-01T00:00:00.001Z''),
      parseDate = example_parse,
      addDays = (\<lambda>d n. case d of None \<Rightarrow> None
                       | Some t \<Rightarrow> if t + 86400000 * int n \<le> 8640000000000000
                                  then Some (t + 86400000 * int n) else None),
      localeCompare = code_unit_compare\<rparr>"

text \<open>
  The campaign of the spec's example: created 2024-01-01, an Email step (day 2, completed,
  10 points), a Wait step (day 5, completed, 5 points) and a Call step (day 7, open,
  0 points).
\<close>

definition email_step :: JourneyStep where
  "email_step =
     \<lparr>step_id = ''s1'', step_type = ''Email'', step_day = 2, step_title = ''Intro'',
      step_description = [], step_completed = True, step_points = Some 10,
      step_owner = JSString ''Ana Silva'', step_targetContactName = Some ''Bob''\<rparr>"

definition wait_step :: JourneyStep where
  "wait_step =
     \<lparr>step_id = ''s2'', step_type = ''Wait'', step_day = 5, step_title = ''Pause'',
      step_description = [], step_completed = True, step_points = Some 5,
      step_owner = JSString ''Ana Silva'', step_targetContactName = None\<rparr>"

definition call_step :: JourneyStep where
  "call_step =
     \<lparr>step_id = ''s3'', step_type = ''Call'', step_day = 7, step_title = ''Follow up'',
      step_description = [], step_completed = False, step_points = Some 0,
      step_owner = JSString ''Ana Silva'', step_targetContactName = None\<rparr>"

definition example_steps :: "JourneyStep list" where
  "example_steps = [email_step, wait_step, call_step]"

definition example_campaign :: CampaignData where
  "example_campaign =
     \<lparr>camp_id = Some ''c1'', camp_name = ''Q1'', camp_targetCompany = Some ''Acme'',
      camp_objective = Some ''Meeting'', camp_status = Some ''Active'', camp_open = None,
      camp_steps = Some example_steps, camp_created_at = Some ''2024-01-01T00:00:00.000Z''\<rparr>"

definition example_task :: FlatTask where
  "example_task = mk_task example_platform (Some 1704067200000) example_campaign email_step"

definition pointless_step :: JourneyStep where
  "pointless_step = call_step\<lparr>step_id := ''s4'', step_completed := True, step_points := None\<rparr>"

definition new_campaign :: CampaignData where
  "new_campaign = example_campaign\<lparr>camp_id := Some ''camp-1717200000000'', camp_created_at := None\<rparr>"

definition example_profile :: UserProfile where
  "example_profile = \<lparr>full_name = JSString ''Ana Silva'', email = JSString ''ana@example.com''\<rparr>"

definition lowercase_campaign :: CampaignData where
  "lowercase_campaign =
     example_campaign\<lparr>camp_steps := Some [email_step\<lparr>step_owner := JSString ''ana silva''\<rparr>]\<rparr>"

text \<open>A step nobody owns, in a campaign after a Wait step.\<close>

definition ownerless_step :: JourneyStep where
  "ownerless_step = call_step\<lparr>step_owner := JSUndefined\<rparr>"

definition ownerless_campaign :: CampaignData where
  "ownerless_campaign = example_campaign\<lparr>camp_steps := Some [wait_step, ownerless_step]\<rparr>"

definition example_row :: campaign_row where
  "example_row =
     \<lparr>row_id = ''c1'', row_name = ''Q1'', row_target_company = Some ''Acme'',
      row_objective = Some ''Meeting'', row_status = Some ''Active'', row_progress = 50,
      row_sent = 1, row_open_rate = Some ''0%'', row_total_points = 15, row_user_id = ''u1'',
      row_steps = Some example_steps, row_created_at = Some ''2024-01-01T00:00:00.000Z'',
      row_updated_at = Some ''2024-01-02T00:00:00.000Z''\<rparr>"

text \<open>
  A contact at Initech, the same contact edited to be at Acme, to have no company, and to
  be at a company whose name runs over two lines; the contact as saved after the move to
  Acme; and the contact with a tag in its notes that has no date in it.
\<close>

definition initech_bob :: ContactData where
  "initech_bob =
     \<lparr>contact_name = ''Bob'', contact_role = None, contact_company = Some ''Initech'',
      contact_email = None, contact_phone = [], contact_linkedin = [], contact_instagram = [],
      contact_avatar = None, contact_notes = ''met at the fair''\<rparr>"

definition acme_bob :: ContactData where
  "acme_bob = initech_bob\<lparr>contact_company := Some ''Acme''\<rparr>"

definition no_company_bob :: ContactData where
  "no_company_bob = initech_bob\<lparr>contact_company := None\<rparr>"

definition two_line_bob :: ContactData where
  "two_line_bob = initech_bob\<lparr>contact_company := Some (''Acme'' @ [CHR 0x0A] @ ''Corp'')\<rparr>"

definition saved_bob :: ContactData where
  "saved_bob =
     acme_bob\<lparr>contact_notes :=
        ''met at the fair'' @ [CHR 0x0A]
          @ ''[HISTORY:MOVED:2024-06-01T00:00:00.000Z] Mudou da empresa Initech para Acme''\<rparr>"

definition noted_bob :: ContactData where
  "noted_bob =
     acme_bob\<lparr>contact_notes :=
        ''[HISTORY:MOVED:soon] leaving Initech'' @ [CHR 0x0A]
          @ ''[HISTORY:MOVED:2024-03-01T00:00:00.000Z] Mudou da empresa Initech para Acme''\<rparr>"

text \<open>A campaign without steps, and one with a step a thousand million days after its start.\<close>

definition stepless_campaign :: CampaignData where
  "stepless_campaign = example_campaign\<lparr>camp_steps := Some []\<rparr>"

definition far_campaign :: CampaignData where
  "far_campaign =
     example_campaign\<lparr>camp_steps :=
        Some [email_step\<lparr>step_day := 3\<rparr>,
              email_step\<lparr>step_id := ''s2'', step_day := 1000000000\<rparr>,
              email_step\<lparr>step_id := ''s3'', step_day := 2\<rparr>]\<rparr>"

text \<open>
  The example campaign with \<open>2^53\<close> points on its Email step and 1 point on its Wait
  step.
\<close>

definition jackpot_steps :: "JourneyStep list" where
  "jackpot_steps =
     [email_step\<lparr>step_points := Some 9007199254740992\<rparr>, wait_step\<lparr>step_points := Some 1\<rparr>,
      call_step]"

definition jackpot_campaign :: CampaignData where
  "jackpot_campaign = example_campaign\<lparr>camp_steps := Some jackpot_steps\<rparr>"

text \<open>
  A campaign of forty active steps, twenty-three of them completed.
\<close>

definition long_steps :: "JourneyStep list" where
  "long_steps =
     map (\<lambda>i. email_step\<lparr>step_id := replicate (Suc i) (CHR ''a'')\<rparr>) [0..<23]
       @ map (\<lambda>i. call_step\<lparr>step_id := replicate (Suc i) (CHR ''b'')\<rparr>) [0..<17]"

definition long_campaign :: CampaignData where
  "long_campaign = example_campaign\<lparr>camp_steps := Some long_steps\<rparr>"

lemmas example_defs =
  example_platform_def example_parse_def email_step_def wait_step_def call_step_def
  example_steps_def example_campaign_def example_task_def mk_task_def
  truthy_def or_default_def template_str_def jstr_opt_def
  js_truthy_def js_or_def js_or_default_def

section \<open>Binary64 rounding\<close>

lemma pow2_powi: "pow2 e = 2 powi e"
  by (simp add: pow2_def power_int_def field_simps)

lemma pow2_pos: "0 < pow2 e"
  by (simp add: pow2_powi)

lemma pow2_add: "pow2 (a + b) = pow2 a * pow2 b"
  by (simp add: pow2_powi power_int_add)

lemma pow2_diff: "pow2 (a - b) = pow2 a / pow2 b"
  by (simp add: pow2_powi power_int_diff)

lemma pow2_mono: "a \<le> b \<Longrightarrow> pow2 a \<le> pow2 b"
  by (simp add: pow2_powi power_int_increasing)

lemma pow2_less: "pow2 a < pow2 b \<Longrightarrow> a < b"
  using pow2_mono [of b a] by (cases "a < b") auto

lemma pow2_of_nat: "pow2 (int m) = 2 ^ m"
  by (simp add: pow2_def)

lemma bitlen_pow2_bounds:
  assumes "0 < a"
  shows "pow2 (bitlen a - 1) \<le> of_int a" and "of_int a < pow2 (bitlen a)"
proof -
  from bitlen_bounds [OF assms]
  have lo: "2 ^ nat (bitlen a - 1) \<le> a" and hi: "a < 2 ^ nat (bitlen a)" by simp_all
  have pos: "1 \<le> bitlen a" using assms by (smt (verit) bitlen_eq_zero_iff bitlen_nonneg)
  have "pow2 (bitlen a - 1) = of_int (2 ^ nat (bitlen a - 1))"
    using pos by (simp add: pow2_def)
  also have "\<dots> \<le> of_int a" using lo by (simp only: of_int_le_iff)
  finally show "pow2 (bitlen a - 1) \<le> of_int a" .
  have "of_int a < (of_int (2 ^ nat (bitlen a)) :: rat)" using hi by (simp only: of_int_less_iff)
  also have "\<dots> = pow2 (bitlen a)" using pos by (simp add: pow2_def)
  finally show "of_int a < pow2 (bitlen a)" .
qed

lemma floor_log2_bounds:
  assumes "0 < x"
  shows "pow2 (floor_log2 x) \<le> x" and "x < pow2 (floor_log2 x + 1)"
proof -
  obtain a b where q: "quotient_of x = (a, b)" by (cases "quotient_of x")
  then have b: "0 < b" and x: "x = of_int a / of_int b"
    by (simp_all add: quotient_of_denom_pos quotient_of_div)
  from assms x b have a: "0 < a" by (simp add: zero_less_divide_iff)
  let ?d = "bitlen a - bitlen b"
  have lo: "pow2 (?d - 1) < x"
  proof -
    have "pow2 (?d - 1) = pow2 (bitlen a - 1) / pow2 (bitlen b)"
      by (simp add: pow2_diff [symmetric] algebra_simps)
    also have "\<dots> \<le> of_int a / pow2 (bitlen b)"
      using bitlen_pow2_bounds(1) [OF a] pow2_pos [of "bitlen b"] by (simp add: divide_right_mono)
    also have "\<dots> < of_int a / of_int b"
      using bitlen_pow2_bounds(2) [OF b] a b by (simp add: divide_strict_left_mono)
    finally show ?thesis using x by simp
  qed
  have hi: "x < pow2 (?d + 1)"
  proof -
    have "x = of_int a / of_int b" by (rule x)
    also have "\<dots> < pow2 (bitlen a) / of_int b"
      using bitlen_pow2_bounds(2) [OF a] b by (simp add: divide_strict_right_mono)
    also have "\<dots> \<le> pow2 (bitlen a) / pow2 (bitlen b - 1)"
      using bitlen_pow2_bounds(1) [OF b] pow2_pos [of "bitlen a"] pow2_pos [of "bitlen b - 1"]
      by (simp add: divide_left_mono)
    also have "\<dots> = pow2 (?d + 1)"
      by (simp add: pow2_diff [symmetric] algebra_simps)
    finally show ?thesis .
  qed
  have e: "floor_log2 x = (if pow2 ?d \<le> x then ?d else ?d - 1)"
    by (simp add: floor_log2_def q Let_def)
  show "pow2 (floor_log2 x) \<le> x"
    using lo by (simp add: e)
  show "x < pow2 (floor_log2 x + 1)"
    using hi by (simp add: e) 
qed

lemma floor_log2_ge:
  assumes "0 < x" and "pow2 m \<le> x"
  shows "m \<le> floor_log2 x"
proof -
  from assms(2) floor_log2_bounds(2) [OF assms(1)] have "pow2 m < pow2 (floor_log2 x + 1)" by simp
  then have "m < floor_log2 x + 1" by (rule pow2_less)
  then show ?thesis by simp
qed

lemma round_half_even_close: "\<bar>of_int (round_half_even q) - q\<bar> \<le> 1 / 2"
proof -
  have "of_int \<lfloor>q\<rfloor> \<le> q" "q < of_int \<lfloor>q\<rfloor> + 1" by linarith+
  then show ?thesis
    by (auto simp: round_half_even_def Let_def abs_le_iff)
qed

lemma round_half_even_nonneg: "0 \<le> q \<Longrightarrow> 0 \<le> round_half_even q"
  by (auto simp: round_half_even_def Let_def)

lemma fl_nonneg: "0 \<le> fl x"
proof (cases "x \<le> 0")
  case True
  then show ?thesis by (simp add: fl_def)
next
  case False
  let ?e = "max (floor_log2 x) (- 1022)"
  have "0 \<le> x / pow2 (?e - 52)" using False pow2_pos [of "?e - 52"] by simp
  then have "0 \<le> round_half_even (x / pow2 (?e - 52))" by (rule round_half_even_nonneg)
  then show ?thesis using False pow2_pos [of "?e - 52"] by (simp add: fl_def Let_def)
qed

lemma pow2_shift: "pow2 (e + int k) = 2 ^ k * pow2 e"
  by (simp add: pow2_add pow2_of_nat)

lemma floor_log2_unique:
  assumes "0 < x" and "pow2 e \<le> x" and "x < pow2 (e + 1)"
  shows "floor_log2 x = e"
proof -
  have a: "e \<le> floor_log2 x" using assms(1,2) by (rule floor_log2_ge)
  from floor_log2_bounds(1) [OF assms(1)] assms(3) have "pow2 (floor_log2 x) < pow2 (e + 1)" by simp
  then have "floor_log2 x < e + 1" by (rule pow2_less)
  with a show ?thesis by simp
qed

lemma round_half_even_of_int: "round_half_even (of_int n) = n"
  by (simp add: round_half_even_def Let_def)

lemma round_half_even_floor:
  "\<lfloor>q\<rfloor> \<le> round_half_even q" "round_half_even q \<le> \<lfloor>q\<rfloor> + 1"
  by (simp_all add: round_half_even_def Let_def)

text \<open>A value that is a whole number of units in the last place, and not above \<open>2^53\<close> of them, rounds to itself.\<close>

lemma fl_fixed:
  assumes "2 ^ 52 \<le> m" and "m \<le> 2 ^ 53" and "- 1022 \<le> e"
  shows "fl (of_int m * pow2 (e - 52)) = of_int m * pow2 (e - 52)"
proof -
  let ?u = "pow2 (e - 52)"
  let ?x = "of_int m * ?u"
  have u: "0 < ?u" by (rule pow2_pos)
  have m: "(2 :: rat) ^ 52 \<le> of_int m" "(of_int m :: rat) \<le> 2 ^ 53"
    using assms(1,2) by (metis of_int_le_iff of_int_numeral of_int_power)+
  have x: "0 < ?x" using m(1) u by (simp add: zero_less_mult_iff)
  have pe: "pow2 e = 2 ^ 52 * ?u"
    using pow2_shift [of "e - 52" 52] by simp
  have pe1: "pow2 (e + 1) = 2 ^ 53 * ?u"
    using pow2_shift [of "e - 52" 53] by (simp add: add.commute)
  have pe2: "pow2 (e + 1 - 52) = 2 * ?u"
    using pow2_shift [of "e - 52" 1] by simp
  show ?thesis
  proof (cases "m = 2 ^ 53")
    case True
    then have xe: "?x = pow2 (e + 1)" by (simp add: pe1)
    have "pow2 (e + 1) < pow2 (e + 1 + 1)"
      using pow2_shift [of "e + 1" 1] pow2_pos [of "e + 1"] by simp
    then have fe: "floor_log2 ?x = e + 1"
      using x unfolding xe by (intro floor_log2_unique) simp_all
    have q: "?x / pow2 (e + 1 - 52) = of_int (2 ^ 52)"
      unfolding pe2 using u True by simp
    have "fl ?x = of_int (round_half_even (?x / pow2 (e + 1 - 52))) * pow2 (e + 1 - 52)"
      using x assms(3) by (simp add: fl_def fe Let_def max_def del: of_int_mult)
    also have "\<dots> = of_int (2 ^ 52) * pow2 (e + 1 - 52)"
      by (simp only: q round_half_even_of_int)
    also have "\<dots> = ?x" unfolding pe2 using True by simp
    finally show ?thesis .
  next
    case False
    with assms(2) have "m < 2 ^ 53" by simp
    then have "(of_int m :: rat) < 2 ^ 53" by (metis of_int_less_iff of_int_numeral of_int_power)
    then have hi: "?x < pow2 (e + 1)" using u by (simp add: pe1)
    have lo: "pow2 e \<le> ?x" using m(1) u by (simp add: pe)
    have fe: "floor_log2 ?x = e" using x lo hi by (rule floor_log2_unique)
    have q: "?x / ?u = of_int m" using u by simp
    have "fl ?x = of_int (round_half_even (?x / ?u)) * ?u"
      using x assms(3) by (simp add: fl_def fe Let_def max_def del: of_int_mult)
    also have "\<dots> = ?x" by (simp only: q round_half_even_of_int)
    finally show ?thesis .
  qed
qed

text \<open>In the normal range a rounded value is \<open>m\<close> units in the last place with \<open>2^52 \<le> m \<le> 2^53\<close>.\<close>

lemma fl_normal:
  assumes "0 < x" and "- 1022 \<le> floor_log2 x"
  shows "\<exists>m. 2 ^ 52 \<le> m \<and> m \<le> 2 ^ 53 \<and> fl x = of_int m * pow2 (floor_log2 x - 52)"
proof -
  let ?e = "floor_log2 x"
  let ?u = "pow2 (?e - 52)"
  let ?m = "round_half_even (x / ?u)"
  have u: "0 < ?u" by (rule pow2_pos)
  have pe: "pow2 ?e = 2 ^ 52 * ?u"
    using pow2_shift [of "?e - 52" 52] by simp
  have pe1: "pow2 (?e + 1) = 2 ^ 53 * ?u"
    using pow2_shift [of "?e - 52" 53] by (simp add: add.commute)
  from floor_log2_bounds [OF assms(1)] have "2 ^ 52 * ?u \<le> x" "x < 2 ^ 53 * ?u"
    by (simp_all only: pe pe1)
  then have q: "of_int (2 ^ 52) \<le> x / ?u" "x / ?u < of_int (2 ^ 53)"
    using u by (simp_all add: field_simps)
  from q(1) have "2 ^ 52 \<le> \<lfloor>x / ?u\<rfloor>" by (simp only: le_floor_iff)
  with round_half_even_floor(1) [of "x / ?u"] have lo: "2 ^ 52 \<le> ?m" by linarith
  from q(2) have "\<lfloor>x / ?u\<rfloor> < 2 ^ 53" by (simp only: floor_less_iff)
  with round_half_even_floor(2) [of "x / ?u"] have hi: "?m \<le> 2 ^ 53" by linarith
  have "fl x = of_int ?m * ?u" using assms by (simp add: fl_def Let_def max_def)
  with lo hi show ?thesis by blast
qed

lemma fl_idem:
  assumes "0 < x" and "- 1022 \<le> floor_log2 x"
  shows "fl (fl x) = fl x"
proof -
  from fl_normal [OF assms] obtain m where
    "2 ^ 52 \<le> m" "m \<le> 2 ^ 53" "fl x = of_int m * pow2 (floor_log2 x - 52)" by blast
  then show ?thesis using fl_fixed [OF _ _ assms(2), of m] by simp
qed

lemma floor_log2_of_int:
  assumes "1 \<le> n"
  shows "0 \<le> floor_log2 (of_int n)"
proof -
  have "(1 :: rat) \<le> of_int n" using assms by simp
  then have "pow2 0 \<le> of_int n" by (simp add: pow2_def)
  moreover have "(0 :: rat) < of_int n" using assms by simp
  ultimately show ?thesis by (intro floor_log2_ge)
qed

text \<open>Integers up to \<open>2^53\<close> are binary64 values.\<close>

lemma fl_of_int_small:
  assumes "0 \<le> n" and "n \<le> 2 ^ 53"
  shows "fl (of_int n) = of_int n"
proof (cases "n = 0 \<or> n = 2 ^ 53")
  case True
  then show ?thesis
  proof
    assume "n = 0"
    then show ?thesis by (simp add: fl_def)
  next
    assume n: "n = 2 ^ 53"
    have "fl (of_int (2 ^ 53) * pow2 (52 - 52)) = of_int (2 ^ 53) * pow2 (52 - 52)"
      by (rule fl_fixed) simp_all
    then show ?thesis by (simp add: n pow2_def)
  qed
next
  case False
  with assms have n: "1 \<le> n" "n < 2 ^ 53" by simp_all
  let ?x = "of_int n :: rat"
  let ?e = "floor_log2 ?x"
  let ?u = "pow2 (?e - 52)"
  let ?k = "nat (52 - ?e)"
  have x: "0 < ?x" using n(1) by simp
  have e0: "0 \<le> ?e" using n(1) by (rule floor_log2_of_int)
  have "?x < of_int (2 ^ 53)" using n(2) by (simp only: of_int_less_iff)
  then have "?x < pow2 53" by (simp add: pow2_def)
  with floor_log2_bounds(1) [OF x] have "pow2 ?e < pow2 53" by simp
  then have e52: "?e \<le> 52" using pow2_less [of ?e 53] by simp
  have "pow2 (?e - 52 + int ?k) = 2 ^ ?k * ?u" by (rule pow2_shift)
  moreover have "?e - 52 + int ?k = 0" using e52 by simp
  ultimately have u: "2 ^ ?k * ?u = 1" by (simp add: pow2_def)
  have upos: "0 < ?u" by (rule pow2_pos)
  have "?x / ?u = ?x * (2 ^ ?k * ?u) / ?u" by (simp only: u mult_1_right)
  also have "\<dots> = ?x * 2 ^ ?k" using upos by simp
  also have "\<dots> = of_int (n * 2 ^ ?k)" by simp
  finally have q: "?x / ?u = of_int (n * 2 ^ ?k)" .
  have "fl ?x = of_int (round_half_even (?x / ?u)) * ?u"
    using x e0 by (simp add: fl_def Let_def max_def)
  also have "\<dots> = of_int (n * 2 ^ ?k) * ?u" by (simp only: q round_half_even_of_int)
  also have "\<dots> = ?x * (2 ^ ?k * ?u)" by simp
  also have "\<dots> = ?x" by (simp only: u mult_1_right)
  finally show ?thesis .
qed

text \<open>The binary64 value nearest to an integer is an integer.\<close>

lemma fl_of_int_integral:
  assumes "0 \<le> n"
  shows "\<exists>r. 0 \<le> r \<and> fl (of_int n) = of_int r \<and> fl (of_int r) = of_int r"
proof (cases "n \<le> 2 ^ 53")
  case True
  with assms fl_of_int_small [of n] show ?thesis by auto
next
  case False
  then have n: "2 ^ 53 < n" by simp
  let ?x = "of_int n :: rat"
  let ?e = "floor_log2 ?x"
  have x: "0 < ?x" using n by simp
  have "(of_int (2 ^ 53) :: rat) \<le> ?x" using n by (simp only: of_int_le_iff)
  then have "pow2 53 \<le> ?x" by (simp add: pow2_def)
  with x have e53: "53 \<le> ?e" by (rule floor_log2_ge)
  then have e: "- 1022 \<le> ?e" by simp
  from fl_normal [OF x e] obtain m where
    m: "2 ^ 52 \<le> m" "m \<le> 2 ^ 53" "fl ?x = of_int m * pow2 (?e - 52)" by blast
  have u: "pow2 (?e - 52) = of_int (2 ^ nat (?e - 52))" using e53 by (simp add: pow2_def)
  let ?r = "m * 2 ^ nat (?e - 52)"
  have r: "of_int ?r = of_int m * pow2 (?e - 52)" by (simp add: u)
  have "0 \<le> ?r" using m(1) by simp
  moreover have "fl ?x = of_int ?r" by (simp only: m(3) r)
  moreover have "fl (of_int ?r) = of_int ?r" unfolding r using m(1,2) e by (rule fl_fixed)
  ultimately show ?thesis by blast
qed

lemma fl_signed_of_int:
  "\<exists>r. fl_signed (of_int n) = of_int r \<and> fl_signed (of_int r) = of_int r \<and> (0 \<le> n \<longrightarrow> 0 \<le> r)"
proof (cases "0 \<le> n")
  case True
  from fl_of_int_integral [OF True] obtain r where
    "0 \<le> r" "fl (of_int n) = of_int r" "fl (of_int r) = of_int r" by blast
  with True show ?thesis by (intro exI [of _ r]) (simp add: fl_signed_def)
next
  case False
  then have "0 \<le> - n" by simp
  from fl_of_int_integral [OF this] obtain r where
    r: "0 \<le> r" "fl (of_int (- n)) = of_int r" "fl (of_int r) = of_int r" by blast
  have 1: "fl_signed (of_int n) = of_int (- r)"
    using False r(2) by (simp add: fl_signed_def)
  have 2: "fl_signed (of_int (- r)) = of_int (- r)"
  proof (cases "r = 0")
    case True
    then show ?thesis by (simp add: fl_signed_def fl_def)
  next
    case False
    with r(1) have "0 < r" by simp
    then show ?thesis using r(3) by (simp add: fl_signed_def)
  qed
  from 1 2 False show ?thesis by (intro exI [of _ "- r"]) simp
qed

text \<open>
  Addition of integers: exact up to \<open>2^53\<close>, a value it returns is not changed by
  adding 0, and a non-negative exact sum gives a non-negative value.
\<close>

lemma number_add_exact:
  assumes "\<bar>a + b\<bar> \<le> 2 ^ 53"
  shows "number_add a b = a + b"
proof (cases "0 \<le> a + b")
  case True
  with assms have "fl (of_int (a + b)) = of_int (a + b)" by (intro fl_of_int_small) simp_all
  with True show ?thesis by (simp add: number_add_def fl_signed_def)
next
  case False
  with assms have "fl (of_int (- (a + b))) = of_int (- (a + b))"
    by (intro fl_of_int_small) simp_all
  then have "fl (- of_int a - of_int b) = - of_int a - of_int b" by simp
  with False show ?thesis by (simp add: number_add_def fl_signed_def)
qed

lemma number_add_of_int: "of_int (number_add a b) = fl_signed (of_int a + of_int b)"
proof -
  from fl_signed_of_int [of "a + b"] obtain r where
    "fl_signed (of_int (a + b)) = of_int r" by blast
  then show ?thesis by (simp add: number_add_def)
qed

lemma number_add_rounded: "number_add (number_add a b) 0 = number_add a b"
proof -
  from fl_signed_of_int [of "a + b"] obtain r where
    r: "fl_signed (of_int (a + b)) = of_int r" "fl_signed (of_int r) = of_int r" by blast
  from r(1) have "number_add a b = r" by (simp add: number_add_def)
  moreover from r(2) have "number_add r 0 = r" by (simp add: number_add_def)
  ultimately show ?thesis by simp
qed

lemma number_add_nonneg: "0 \<le> a + b \<Longrightarrow> 0 \<le> number_add a b"
  using fl_nonneg [of "of_int a + of_int b"]
  by (simp add: number_add_def fl_signed_def)

section \<open>Total points\<close>

lemma points_magnitude_nonneg: "0 \<le> points_magnitude ss"
  by (induction ss) (simp_all add: points_magnitude_def)

lemma points_magnitude_without:
  "points_magnitude (xs @ ys) \<le> points_magnitude (xs @ w # ys)"
  by (simp add: points_magnitude_def)

lemma spec_totalPoints_Cons:
  "spec_totalPoints (s # ss) = (if step_completed s then points_or_0 s else 0) + spec_totalPoints ss"
  by (simp add: spec_totalPoints_def points_or_0_def split: option.splits)

lemma spec_totalPoints_insert:
  "spec_totalPoints (xs @ w # ys)
     = spec_totalPoints (xs @ ys) + (if step_completed w then points_or_0 w else 0)"
  by (induction xs) (simp_all add: spec_totalPoints_Cons)

text \<open>
  The fold of the two writers from any accumulator: while the points stay within
  \<open>2^53\<close> no addition rounds, and the result is the exact sum.
\<close>

lemma fold_points_exact:
  "\<bar>a\<bar> + points_magnitude ss \<le> 2 ^ 53 \<Longrightarrow>
     fold (\<lambda>s acc. if step_completed s then number_add acc (points_or_0 s) else acc) ss a
       = a + spec_totalPoints ss"
proof (induction ss arbitrary: a)
  case Nil
  show ?case by (simp add: spec_totalPoints_def)
next
  case (Cons s ss)
  let ?p = "points_or_0 s"
  note m = points_magnitude_nonneg [of ss]
  show ?case
  proof (cases "step_completed s")
    case True
    with Cons.prems have b: "\<bar>a\<bar> + \<bar>?p\<bar> + points_magnitude ss \<le> 2 ^ 53"
      by (simp add: points_magnitude_def)
    have "\<bar>a + ?p\<bar> \<le> 2 ^ 53" using b m by linarith
    then have add: "number_add a ?p = a + ?p" by (rule number_add_exact)
    have "\<bar>a + ?p\<bar> + points_magnitude ss \<le> 2 ^ 53" using b by linarith
    from Cons.IH [OF this] True add show ?thesis by (simp add: spec_totalPoints_Cons)
  next
    case False
    with Cons.prems have "\<bar>a\<bar> + points_magnitude ss \<le> 2 ^ 53"
      by (simp add: points_magnitude_def)
    from Cons.IH [OF this] False show ?thesis by (simp add: spec_totalPoints_Cons)
  qed
qed

lemma reduce_points_exact:
  "points_magnitude ss \<le> 2 ^ 53 \<Longrightarrow> reduce_points ss = spec_totalPoints ss"
  using fold_points_exact [of 0 ss] by (simp add: reduce_points_def)

text \<open>An accumulator of the fold is a value that adding 0 leaves as it is.\<close>

lemma fold_points_rounded:
  "number_add a 0 = a \<Longrightarrow>
     number_add (fold (\<lambda>s acc. if step_completed s then number_add acc (points_or_0 s) else acc) ss a) 0
       = fold (\<lambda>s acc. if step_completed s then number_add acc (points_or_0 s) else acc) ss a"
  by (induction ss arbitrary: a) (simp_all add: number_add_rounded)

lemma fold_points_nonneg:
  "0 \<le> a \<Longrightarrow> (\<forall>s\<in>set ss. \<forall>v. step_points s = Some v \<longrightarrow> 0 \<le> v) \<Longrightarrow>
     0 \<le> fold (\<lambda>s acc. if step_completed s then number_add acc (points_or_0 s) else acc) ss a"
proof (induction ss arbitrary: a)
  case Nil
  then show ?case by simp
next
  case (Cons s ss)
  have "0 \<le> points_or_0 s" using Cons.prems(2) by (simp add: points_or_0_def split: option.splits)
  with Cons.prems(1) have "0 \<le> number_add a (points_or_0 s)" by (intro number_add_nonneg) simp
  with Cons.prems show ?case by (simp add: Cons.IH)
qed

lemma reduce_points_nonneg:
  "(\<forall>s\<in>set ss. \<forall>v. step_points s = Some v \<longrightarrow> 0 \<le> v) \<Longrightarrow> 0 \<le> reduce_points ss"
  using fold_points_nonneg [of 0 ss] by (simp add: reduce_points_def)

lemma save_aggregates_total:
  "fst (snd (save_aggregates st)) = reduce_points (case st of None \<Rightarrow> [] | Some ss \<Rightarrow> ss)"
  by (cases st) (auto simp: save_aggregates_def Let_def reduce_points_def)

lemma save_aggregates_Some:
  "save_aggregates (Some ss) =
     (completedSteps ss, reduce_points ss,
      if length (activeSteps ss) > 0 then percent (completedSteps ss) (length (activeSteps ss)) else 0)"
  by (cases ss)
     (simp_all add: save_aggregates_def Let_def completedSteps_def activeSteps_def reduce_points_def)

text \<open>What a save hands to the store, key by key.\<close>

lemma handleSaveCampaign_Some:
  assumes "truthy uid"
  shows "\<exists>pl. handleSaveCampaign p uid c = Some pl
    \<and> map_of pl ''sent'' = Some (JNum (int (fst (save_aggregates (camp_steps c)))))
    \<and> map_of pl ''total_points'' = Some (JNum (fst (snd (save_aggregates (camp_steps c)))))
    \<and> map_of pl ''progress'' = Some (JNum (snd (snd (save_aggregates (camp_steps c)))))
    \<and> map_of pl ''updated_at'' = Some (JStr (toISOString p (clock p 0)))
    \<and> map_of pl ''created_at'' = Some (if truthy (camp_created_at c) then jstr_opt (camp_created_at c)
                else JStr (toISOString p (clock p 1)))"
  using assms by (simp add: handleSaveCampaign_def Let_def split: prod.splits)

text \<open>What a toggle writes: the same three aggregates, of the updated steps.\<close>

lemma handleCompleteTask_Some:
  assumes "find (\<lambda>c. camp_id c = Some (task_campaignId t)) cs = Some c" and "camp_steps c = Some ss"
  shows "handleCompleteTask p cs t = Some (task_campaignId t,
            [(''steps'', JSteps (updatedSteps (task_id t) ss)),
             (''progress'', JNum (snd (snd (save_aggregates (Some (updatedSteps (task_id t) ss)))))),
             (''sent'', JNum (int (fst (save_aggregates (Some (updatedSteps (task_id t) ss)))))),
             (''total_points'', JNum (fst (snd (save_aggregates (Some (updatedSteps (task_id t) ss)))))),
             (''updated_at'', JStr (toISOString p (clock p 0)))])"
  using assms
  by (simp add: handleCompleteTask_def save_aggregates_Some Let_def)

text \<open>
  C2. On a save and on a toggle the stored \<open>total_points\<close> is the sum of the points of all
  completed steps of the list written, whatever their kind, as long as the points of those
  steps add up to at most \<open>2^53\<close> in absolute value: a step anywhere in such a list
  adds its points when it is completed, a Wait step like any other, and nothing when it is
  not.
\<close>

theorem totalPoints_sums_all_completed_steps:
  "(truthy uid \<and> points_magnitude (case camp_steps c of None \<Rightarrow> [] | Some ss \<Rightarrow> ss) \<le> 2 ^ 53 \<longrightarrow>
      (\<exists>pl. handleSaveCampaign p uid c = Some pl
         \<and> map_of pl ''total_points''
             = Some (JNum (spec_totalPoints (case camp_steps c of None \<Rightarrow> [] | Some ss \<Rightarrow> ss)))))
   \<and> (find (\<lambda>c. camp_id c = Some (task_campaignId t)) cs = Some c' \<and> camp_steps c' = Some ss
        \<and> points_magnitude (updatedSteps (task_id t) ss) \<le> 2 ^ 53 \<longrightarrow>
      (\<exists>pl. handleCompleteTask p cs t = Some (task_campaignId t, pl)
         \<and> map_of pl ''total_points''
             = Some (JNum (spec_totalPoints (updatedSteps (task_id t) ss)))))
   \<and> (points_magnitude (xs @ w # ys) \<le> 2 ^ 53 \<longrightarrow>
        reduce_points (xs @ w # ys)
          = reduce_points (xs @ ys) + (if step_completed w then points_or_0 w else 0))"
proof (intro conjI impI)
  assume a: "truthy uid \<and> points_magnitude (case camp_steps c of None \<Rightarrow> [] | Some ss \<Rightarrow> ss) \<le> 2 ^ 53"
  then have "fst (snd (save_aggregates (camp_steps c)))
      = spec_totalPoints (case camp_steps c of None \<Rightarrow> [] | Some ss \<Rightarrow> ss)"
    by (simp add: save_aggregates_total reduce_points_exact)
  with handleSaveCampaign_Some [of uid p c] a
  show "\<exists>pl. handleSaveCampaign p uid c = Some pl
         \<and> map_of pl ''total_points''
             = Some (JNum (spec_totalPoints (case camp_steps c of None \<Rightarrow> [] | Some ss \<Rightarrow> ss)))"
    by auto
next
  assume a: "find (\<lambda>c. camp_id c = Some (task_campaignId t)) cs = Some c' \<and> camp_steps c' = Some ss
        \<and> points_magnitude (updatedSteps (task_id t) ss) \<le> 2 ^ 53"
  then have "fst (snd (save_aggregates (Some (updatedSteps (task_id t) ss))))
      = spec_totalPoints (updatedSteps (task_id t) ss)"
    by (simp add: save_aggregates_total reduce_points_exact)
  with a show "\<exists>pl. handleCompleteTask p cs t = Some (task_campaignId t, pl)
         \<and> map_of pl ''total_points''
             = Some (JNum (spec_totalPoints (updatedSteps (task_id t) ss)))"
    using handleCompleteTask_Some [of t cs c' ss p] by simp
next
  assume a: "points_magnitude (xs @ w # ys) \<le> 2 ^ 53"
  with points_magnitude_without [of xs ys w] have "points_magnitude (xs @ ys) \<le> 2 ^ 53" by simp
  with a show "reduce_points (xs @ w # ys)
          = reduce_points (xs @ ys) + (if step_completed w then points_or_0 w else 0)"
    by (simp only: reduce_points_exact spec_totalPoints_insert)
qed

lemma example_points:
  "points_magnitude example_steps = 15" "spec_totalPoints example_steps = 15"
  "points_magnitude (updatedSteps ''s1'' example_steps) = 5"
  "spec_totalPoints (updatedSteps ''s1'' example_steps) = 5"
  by (simp_all add: points_magnitude_def spec_totalPoints_def updatedSteps_def points_or_0_def
        example_defs)

theorem totalPoints_sums_all_completed_steps_witness:
  "truthy (Some ''u1'')
   \<and> points_magnitude example_steps \<le> 2 ^ 53
   \<and> points_magnitude (updatedSteps ''s1'' example_steps) \<le> 2 ^ 53
   \<and> (\<exists>pl. handleSaveCampaign example_platform (Some ''u1'') example_campaign = Some pl
         \<and> map_of pl ''total_points'' = Some (JNum 15))
   \<and> find (\<lambda>c. camp_id c = Some (task_campaignId example_task)) [example_campaign]
       = Some example_campaign
   \<and> camp_steps example_campaign = Some example_steps
   \<and> (\<exists>pl. handleCompleteTask example_platform [example_campaign] example_task = Some (''c1'', pl)
         \<and> map_of pl ''total_points'' = Some (JNum 5))
   \<and> reduce_points ([email_step] @ wait_step # [call_step]) = reduce_points ([email_step] @ [call_step]) + 5"
proof -
  have m: "points_magnitude example_steps \<le> 2 ^ 53" by (simp add: example_points)
  have e: "[email_step] @ wait_step # [call_step] = example_steps" by (simp add: example_steps_def)
  have c: "camp_steps example_campaign = Some example_steps" by (simp add: example_campaign_def)
  have t: "task_id example_task = ''s1''" "task_campaignId example_task = ''c1''"
    by (simp_all add: example_defs)
  have w: "step_completed wait_step" "points_or_0 wait_step = 5"
    by (simp_all add: wait_step_def points_or_0_def)
  note T = totalPoints_sums_all_completed_steps
          [where uid = "Some ''u1''" and p = example_platform and c = example_campaign
             and t = example_task and cs = "[example_campaign]" and c' = example_campaign
             and ss = example_steps and xs = "[email_step]" and w = wait_step and ys = "[call_step]"]
  show ?thesis
    using T m unfolding e c t
    by (simp add: example_points w) (simp add: example_defs)
qed

text \<open>
  Beyond \<open>2^53\<close> the additions round: with a completed step of \<open>2^53\<close> points followed
  by a completed step of 1 point, a save and a toggle store \<open>2^53\<close>, one less than the
  sum.
\<close>

theorem totalPoints_sums_all_completed_steps_counterexample:
  "spec_totalPoints jackpot_steps = 9007199254740993
   \<and> reduce_points jackpot_steps = 9007199254740992
   \<and> map_of (the (handleSaveCampaign example_platform (Some ''u1'') jackpot_campaign)) ''total_points''
       = Some (JNum 9007199254740992)
   \<and> spec_totalPoints (updatedSteps ''s3'' jackpot_steps) = 9007199254740993
   \<and> map_of (snd (the (handleCompleteTask example_platform [jackpot_campaign]
                          (mk_task example_platform (Some 1704067200000) jackpot_campaign call_step))))
        ''total_points''
       = Some (JNum 9007199254740992)"
proof -
  have tie: "number_add 9007199254740992 1 = 9007199254740992" by code_simp
  have r: "reduce_points jackpot_steps = 9007199254740992"
    "reduce_points (updatedSteps ''s3'' jackpot_steps) = 9007199254740992"
    by (simp_all add: jackpot_steps_def reduce_points_def points_or_0_def updatedSteps_def
          number_add_exact tie example_defs)
  have s: "spec_totalPoints jackpot_steps = 9007199254740993"
    "spec_totalPoints (updatedSteps ''s3'' jackpot_steps) = 9007199254740993"
    by (simp_all add: jackpot_steps_def spec_totalPoints_def updatedSteps_def example_defs)
  have u: "truthy (Some ''u1'')" by (simp add: truthy_def)
  have c: "camp_steps jackpot_campaign = Some jackpot_steps" by (simp add: jackpot_campaign_def)
  from handleSaveCampaign_Some [OF u, of example_platform jackpot_campaign]
  have save: "map_of (the (handleSaveCampaign example_platform (Some ''u1'') jackpot_campaign))
        ''total_points'' = Some (JNum 9007199254740992)"
    by (auto simp: save_aggregates_total c r)
  have f: "find (\<lambda>c. camp_id c = Some (task_campaignId
                (mk_task example_platform (Some 1704067200000) jackpot_campaign call_step)))
             [jackpot_campaign] = Some jackpot_campaign"
    by (simp add: jackpot_campaign_def example_defs)
  have i: "task_id (mk_task example_platform (Some 1704067200000) jackpot_campaign call_step) = ''s3''"
    by (simp add: example_defs)
  have toggle: "map_of (snd (the (handleCompleteTask example_platform [jackpot_campaign]
                          (mk_task example_platform (Some 1704067200000) jackpot_campaign call_step))))
        ''total_points'' = Some (JNum 9007199254740992)"
    unfolding handleCompleteTask_Some [OF f c] i
    by (simp add: save_aggregates_total r)
  from s(1) r(1) save s(2) toggle show ?thesis by (intro conjI)
qed

lemma step_points_updatedSteps:
  "s' \<in> set (updatedSteps tid ss) \<Longrightarrow> \<exists>s\<in>set ss. step_points s' = step_points s"
  by (auto simp: updatedSteps_def)

text \<open>
  C10. A completed step without a points value adds nothing to the total: in both writers
  \<open>total_points\<close> is a number, and it is non-negative when every points value present
  is.
\<close>

theorem absent_points_contribute_zero:
  "(step_points w = None \<longrightarrow> reduce_points (xs @ w # ys) = reduce_points (xs @ ys))
   \<and> (truthy uid \<longrightarrow>
        (\<exists>pl n. handleSaveCampaign p uid c = Some pl \<and> map_of pl ''total_points'' = Some (JNum n)
           \<and> ((\<forall>ss. camp_steps c = Some ss \<longrightarrow> (\<forall>s\<in>set ss. \<forall>v. step_points s = Some v \<longrightarrow> 0 \<le> v)) \<longrightarrow> 0 \<le> n)))
   \<and> (find (\<lambda>c. camp_id c = Some (task_campaignId t)) cs = Some c' \<and> camp_steps c' = Some ss' \<longrightarrow>
        (\<exists>pl n. handleCompleteTask p cs t = Some (task_campaignId t, pl)
           \<and> map_of pl ''total_points'' = Some (JNum n)
           \<and> ((\<forall>s\<in>set ss'. \<forall>v. step_points s = Some v \<longrightarrow> 0 \<le> v) \<longrightarrow> 0 \<le> n)))"
proof (intro conjI impI)
  assume "step_points w = None"
  then have "points_or_0 w = 0" by (simp add: points_or_0_def)
  moreover have "number_add 0 0 = 0" by (simp add: number_add_exact)
  ultimately show "reduce_points (xs @ w # ys) = reduce_points (xs @ ys)"
    by (simp add: reduce_points_def fold_points_rounded)
next
  assume u: "truthy uid"
  from handleSaveCampaign_Some [OF u, of p c] obtain pl where
    pl: "handleSaveCampaign p uid c = Some pl"
      "map_of pl ''total_points'' = Some (JNum (fst (snd (save_aggregates (camp_steps c)))))"
    by blast
  have "0 \<le> fst (snd (save_aggregates (camp_steps c)))"
    if "\<forall>ss. camp_steps c = Some ss \<longrightarrow> (\<forall>s\<in>set ss. \<forall>v. step_points s = Some v \<longrightarrow> 0 \<le> v)"
  proof (cases "camp_steps c")
    case None
    then show ?thesis by (simp add: save_aggregates_total reduce_points_def)
  next
    case (Some ss)
    with that show ?thesis by (simp add: save_aggregates_total reduce_points_nonneg)
  qed
  with pl show "\<exists>pl n. handleSaveCampaign p uid c = Some pl \<and> map_of pl ''total_points'' = Some (JNum n)
           \<and> ((\<forall>ss. camp_steps c = Some ss \<longrightarrow> (\<forall>s\<in>set ss. \<forall>v. step_points s = Some v \<longrightarrow> 0 \<le> v)) \<longrightarrow> 0 \<le> n)"
    by blast
next
  assume a: "find (\<lambda>c. camp_id c = Some (task_campaignId t)) cs = Some c' \<and> camp_steps c' = Some ss'"
  have "0 \<le> reduce_points (updatedSteps (task_id t) ss')"
    if "\<forall>s\<in>set ss'. \<forall>v. step_points s = Some v \<longrightarrow> 0 \<le> v"
    using that by (intro reduce_points_nonneg) (metis step_points_updatedSteps)
  then show "\<exists>pl n. handleCompleteTask p cs t = Some (task_campaignId t, pl)
           \<and> map_of pl ''total_points'' = Some (JNum n)
           \<and> ((\<forall>s\<in>set ss'. \<forall>v. step_points s = Some v \<longrightarrow> 0 \<le> v) \<longrightarrow> 0 \<le> n)"
    using a handleCompleteTask_Some [of t cs c' ss' p]
      save_aggregates_total [of "Some (updatedSteps (task_id t) ss')"]
    by simp
qed

theorem absent_points_contribute_zero_witness:
  "step_points pointless_step = None
   \<and> reduce_points ([email_step] @ pointless_step # [wait_step]) = 15
   \<and> truthy (Some ''u1'')
   \<and> list_all (\<lambda>s. \<forall>v. step_points s = Some v \<longrightarrow> 0 \<le> v) example_steps
   \<and> (\<exists>pl n. handleSaveCampaign example_platform (Some ''u1'') example_campaign = Some pl
          \<and> map_of pl ''total_points'' = Some (JNum n) \<and> 0 \<le> n)
   \<and> find (\<lambda>c. camp_id c = Some (task_campaignId example_task)) [example_campaign] = Some example_campaign
   \<and> camp_steps example_campaign = Some example_steps
   \<and> (\<exists>pl n. handleCompleteTask example_platform [example_campaign] example_task = Some (''c1'', pl)
          \<and> map_of pl ''total_points'' = Some (JNum n) \<and> 0 \<le> n)"
  using absent_points_contribute_zero
          [where w = pointless_step and xs = "[email_step]" and ys = "[wait_step]"
             and uid = "Some ''u1''" and p = example_platform and c = example_campaign
             and t = example_task and cs = "[example_campaign]" and c' = example_campaign
             and ss' = example_steps]
  by (simp add: example_defs pointless_step_def reduce_points_def points_or_0_def number_add_exact)

text \<open>
  C8. A save always stamps \<open>updated_at\<close> with the first clock reading. A campaign that
  carries no creation timestamp gets \<open>created_at\<close> from the next reading; one that
  carries a timestamp has that very string written back.
\<close>

theorem save_stamps_created_at_once_and_updated_at_always:
  "truthy uid \<longrightarrow>
     (\<exists>pl. handleSaveCampaign p uid c = Some pl
        \<and> map_of pl ''updated_at'' = Some (JStr (toISOString p (clock p 0)))
        \<and> (\<not> truthy (camp_created_at c) \<longrightarrow>
              map_of pl ''created_at'' = Some (JStr (toISOString p (clock p 1))))
        \<and> (\<forall>s. camp_created_at c = Some s \<and> s \<noteq> [] \<longrightarrow>
              map_of pl ''created_at'' = Some (JStr s)))"
proof
  assume u: "truthy uid"
  from handleSaveCampaign_Some [OF u, of p c] show "\<exists>pl. handleSaveCampaign p uid c = Some pl
        \<and> map_of pl ''updated_at'' = Some (JStr (toISOString p (clock p 0)))
        \<and> (\<not> truthy (camp_created_at c) \<longrightarrow>
              map_of pl ''created_at'' = Some (JStr (toISOString p (clock p 1))))
        \<and> (\<forall>s. camp_created_at c = Some s \<and> s \<noteq> [] \<longrightarrow>
              map_of pl ''created_at'' = Some (JStr s))"
    by (auto simp: truthy_def jstr_opt_def)
qed

theorem save_stamps_created_at_once_and_updated_at_always_witness:
  "truthy (Some ''u1'') \<and> \<not> truthy (camp_created_at new_campaign)
   \<and> (\<exists>pl. handleSaveCampaign example_platform (Some ''u1'') new_campaign = Some pl
        \<and> map_of pl ''updated_at'' = Some (JStr (toISOString example_platform (clock example_platform 0)))
        \<and> map_of pl ''created_at'' = Some (JStr (toISOString example_platform (clock example_platform 1))))
   \<and> camp_created_at example_campaign = Some ''2024-01-01T00:00:00.000Z''
   \<and> (\<exists>pl. handleSaveCampaign example_platform (Some ''u1'') example_campaign = Some pl
        \<and> map_of pl ''updated_at'' = Some (JStr (toISOString example_platform (clock example_platform 0)))
        \<and> map_of pl ''created_at'' = Some (JStr ''2024-01-01T00:00:00.000Z''))"
  using save_stamps_created_at_once_and_updated_at_always
          [where uid = "Some ''u1''" and p = example_platform and c = new_campaign]
        save_stamps_created_at_once_and_updated_at_always
          [where uid = "Some ''u1''" and p = example_platform and c = example_campaign]
  by (simp add: example_defs new_campaign_def)

section \<open>The toggle and its frame\<close>

lemma length_updatedSteps: "length (updatedSteps tid ss) = length ss"
  by (simp add: updatedSteps_def)

lemma nth_updatedSteps:
  "i < length ss \<Longrightarrow>
     updatedSteps tid ss ! i =
       (if step_id (ss ! i) = tid then (ss ! i)\<lparr>step_completed := \<not> step_completed (ss ! i)\<rparr> else ss ! i)"
  by (simp add: updatedSteps_def)

lemma updatedSteps_twice: "updatedSteps tid (updatedSteps tid ss) = ss"
  by (induction ss) (auto simp: updatedSteps_def)

lemma update_row_toggle_payload:
  "update_row (toggle_payload p tid ss) r =
     r\<lparr>row_steps := Some (updatedSteps tid ss),
       row_progress := snd (snd (save_aggregates (Some (updatedSteps tid ss)))),
       row_sent := int (fst (save_aggregates (Some (updatedSteps tid ss)))),
       row_total_points := fst (snd (save_aggregates (Some (updatedSteps tid ss)))),
       row_updated_at := Some (toISOString p (clock p 0))\<rparr>"
  by (simp add: update_row_def toggle_payload_def set_column_def)

lemma distinct_ids_nth:
  "distinct (map step_id ss) \<Longrightarrow> i < length ss \<Longrightarrow> j < length ss \<Longrightarrow>
     step_id (ss ! i) = step_id (ss ! j) \<Longrightarrow> i = j"
  by (metis distinct_conv_nth length_map nth_map)

text \<open>
  C9. On a campaign whose step ids are distinct a toggle changes at most one step, the one
  with the task's id, and of that step only the \<open>completed\<close> flag, which it negates.
  The object it writes has the keys \<open>steps\<close>, \<open>progress\<close>, \<open>sent\<close>, \<open>total_points\<close>
  and \<open>updated_at\<close> and no other, so the update leaves the other columns of the row, and
  every row with another id, as they are.
\<close>

theorem toggle_flips_one_flag_and_writes_five_columns:
  assumes "find (\<lambda>c. camp_id c = Some (task_campaignId t)) cs = Some c"
    and "camp_steps c = Some ss"
    and "distinct (map step_id ss)"
  shows "\<exists>pl upd. handleCompleteTask p cs t = Some (task_campaignId t, pl)
     \<and> map fst pl = [''steps'', ''progress'', ''sent'', ''total_points'', ''updated_at'']
     \<and> map_of pl ''steps'' = Some (JSteps upd) \<and> length upd = length ss
     \<and> (\<forall>i<length ss.
           upd ! i = (if step_id (ss ! i) = task_id t
                      then (ss ! i)\<lparr>step_completed := \<not> step_completed (ss ! i)\<rparr> else ss ! i)
         \<and> step_id (upd ! i) = step_id (ss ! i) \<and> step_type (upd ! i) = step_type (ss ! i)
         \<and> step_day (upd ! i) = step_day (ss ! i) \<and> step_title (upd ! i) = step_title (ss ! i)
         \<and> step_description (upd ! i) = step_description (ss ! i)
         \<and> step_points (upd ! i) = step_points (ss ! i) \<and> step_owner (upd ! i) = step_owner (ss ! i)
         \<and> step_targetContactName (upd ! i) = step_targetContactName (ss ! i))
     \<and> (\<forall>i<length ss. \<forall>j<length ss. upd ! i \<noteq> ss ! i \<and> upd ! j \<noteq> ss ! j \<longrightarrow> i = j)
     \<and> (\<forall>r. row_id (update_row pl r) = row_id r \<and> row_name (update_row pl r) = row_name r
           \<and> row_status (update_row pl r) = row_status r
           \<and> row_target_company (update_row pl r) = row_target_company r
           \<and> row_created_at (update_row pl r) = row_created_at r
           \<and> row_objective (update_row pl r) = row_objective r
           \<and> row_open_rate (update_row pl r) = row_open_rate r
           \<and> row_user_id (update_row pl r) = row_user_id r)
     \<and> (\<forall>db. \<forall>i<length db. row_id (db ! i) \<noteq> task_campaignId t \<longrightarrow>
           db_update pl (task_campaignId t) db ! i = db ! i)"
proof -
  let ?pl = "toggle_payload p (task_id t) ss"
  let ?upd = "updatedSteps (task_id t) ss"
  have 1: "handleCompleteTask p cs t = Some (task_campaignId t, ?pl)"
    using handleCompleteTask_Some [OF assms(1,2), of p] by (simp add: toggle_payload_def)
  have 2: "map fst ?pl = [''steps'', ''progress'', ''sent'', ''total_points'', ''updated_at'']"
    by (simp add: toggle_payload_def)
  have 3: "map_of ?pl ''steps'' = Some (JSteps ?upd)" by (simp add: toggle_payload_def)
  have 4: "\<forall>i<length ss.
           ?upd ! i = (if step_id (ss ! i) = task_id t
                      then (ss ! i)\<lparr>step_completed := \<not> step_completed (ss ! i)\<rparr> else ss ! i)
         \<and> step_id (?upd ! i) = step_id (ss ! i) \<and> step_type (?upd ! i) = step_type (ss ! i)
         \<and> step_day (?upd ! i) = step_day (ss ! i) \<and> step_title (?upd ! i) = step_title (ss ! i)
         \<and> step_description (?upd ! i) = step_description (ss ! i)
         \<and> step_points (?upd ! i) = step_points (ss ! i) \<and> step_owner (?upd ! i) = step_owner (ss ! i)
         \<and> step_targetContactName (?upd ! i) = step_targetContactName (ss ! i)"
    by (simp add: nth_updatedSteps)
  have 5: "\<forall>i<length ss. \<forall>j<length ss. ?upd ! i \<noteq> ss ! i \<and> ?upd ! j \<noteq> ss ! j \<longrightarrow> i = j"
  proof (intro allI impI)
    fix i j assume i: "i < length ss" and j: "j < length ss"
      and ne: "?upd ! i \<noteq> ss ! i \<and> ?upd ! j \<noteq> ss ! j"
    from ne i j have "step_id (ss ! i) = task_id t" "step_id (ss ! j) = task_id t"
      by (auto simp: nth_updatedSteps split: if_splits)
    then show "i = j" using distinct_ids_nth [OF assms(3) i j] by simp
  qed
  have 6: "\<forall>r. row_id (update_row ?pl r) = row_id r \<and> row_name (update_row ?pl r) = row_name r
           \<and> row_status (update_row ?pl r) = row_status r
           \<and> row_target_company (update_row ?pl r) = row_target_company r
           \<and> row_created_at (update_row ?pl r) = row_created_at r
           \<and> row_objective (update_row ?pl r) = row_objective r
           \<and> row_open_rate (update_row ?pl r) = row_open_rate r
           \<and> row_user_id (update_row ?pl r) = row_user_id r"
    by (simp add: update_row_toggle_payload)
  have 7: "\<forall>db. \<forall>i<length db. row_id (db ! i) \<noteq> task_campaignId t \<longrightarrow>
           db_update ?pl (task_campaignId t) db ! i = db ! i"
    by (simp add: db_update_def)
  show ?thesis
    apply (rule exI [of _ ?pl])
    apply (rule exI [of _ ?upd])
    using 1 2 3 4 5 6 7 length_updatedSteps [of "task_id t" ss] apply (intro conjI)
    apply assumption+
    done
qed

theorem toggle_flips_one_flag_and_writes_five_columns_witness:
  "find (\<lambda>c. camp_id c = Some (task_campaignId example_task)) [example_campaign] = Some example_campaign
   \<and> camp_steps example_campaign = Some example_steps
   \<and> distinct (map step_id example_steps)
   \<and> (\<exists>pl upd. handleCompleteTask example_platform [example_campaign] example_task
                   = Some (task_campaignId example_task, pl)
        \<and> map fst pl = [''steps'', ''progress'', ''sent'', ''total_points'', ''updated_at'']
        \<and> map_of pl ''steps'' = Some (JSteps upd)
        \<and> upd ! 0 = email_step\<lparr>step_completed := False\<rparr> \<and> upd ! 1 = wait_step \<and> upd ! 2 = call_step)"
proof -
  have h: "find (\<lambda>c. camp_id c = Some (task_campaignId example_task)) [example_campaign] = Some example_campaign"
    "camp_steps example_campaign = Some example_steps"
    "distinct (map step_id example_steps)"
    by (simp_all add: example_defs)
  have "\<exists>pl upd. handleCompleteTask example_platform [example_campaign] example_task
                   = Some (task_campaignId example_task, pl)
        \<and> map fst pl = [''steps'', ''progress'', ''sent'', ''total_points'', ''updated_at'']
        \<and> map_of pl ''steps'' = Some (JSteps upd)
        \<and> upd ! 0 = email_step\<lparr>step_completed := False\<rparr> \<and> upd ! 1 = wait_step \<and> upd ! 2 = call_step"
    using toggle_flips_one_flag_and_writes_five_columns [OF h, of example_platform]
  proof (elim exE conjE)
    fix pl upd
    assume a: "handleCompleteTask example_platform [example_campaign] example_task
                 = Some (task_campaignId example_task, pl)"
      "map fst pl = [''steps'', ''progress'', ''sent'', ''total_points'', ''updated_at'']"
      "map_of pl ''steps'' = Some (JSteps upd)"
    assume b: "\<forall>i<length example_steps.
           upd ! i = (if step_id (example_steps ! i) = task_id example_task
                      then (example_steps ! i)\<lparr>step_completed := \<not> step_completed (example_steps ! i)\<rparr>
                      else example_steps ! i)
         \<and> step_id (upd ! i) = step_id (example_steps ! i) \<and> step_type (upd ! i) = step_type (example_steps ! i)
         \<and> step_day (upd ! i) = step_day (example_steps ! i) \<and> step_title (upd ! i) = step_title (example_steps ! i)
         \<and> step_description (upd ! i) = step_description (example_steps ! i)
         \<and> step_points (upd ! i) = step_points (example_steps ! i) \<and> step_owner (upd ! i) = step_owner (example_steps ! i)
         \<and> step_targetContactName (upd ! i) = step_targetContactName (example_steps ! i)"
    have l: "length example_steps = 3" by (simp add: example_steps_def)
    have "upd ! 0 = email_step\<lparr>step_completed := False\<rparr>"
      using b [rule_format, of 0] by (simp add: l) (simp add: example_defs)
    moreover have "upd ! 1 = wait_step"
      using b [rule_format, of 1] by (simp add: l) (simp add: example_defs)
    moreover have "upd ! 2 = call_step"
      using b [rule_format, of 2] by (simp add: l) (simp add: example_defs)
    ultimately show ?thesis using a by (intro exI [of _ pl] exI [of _ upd] conjI)
  qed
  with h show ?thesis by (intro conjI)
qed

section \<open>Task Projector: what is emitted\<close>

lemma fold_push_step:
  "fold (push_step p v sd camp) ss tasks =
     tasks @ map (mk_task p sd camp)
               (filter (\<lambda>s. step_type s \<noteq> ''Wait'' \<and> step_owner s = v) ss)"
  by (induction ss arbitrary: tasks) (auto simp: push_step_def)

lemma push_campaign_None:
  "camp_steps c = None \<Longrightarrow> push_campaign p v c (tasks, i) = (tasks, i)"
  by (simp add: push_campaign_def)

lemma push_campaign_Some:
  "camp_steps c = Some ss \<Longrightarrow> campaign_start p i c = (sd, i') \<Longrightarrow>
     push_campaign p v c (tasks, i) =
       (tasks @ map (mk_task p sd c)
                  (filter (\<lambda>s. step_type s \<noteq> ''Wait'' \<and> step_owner s = v) ss), i')"
  by (simp add: push_campaign_def fold_push_step)

lemma keep_task_simps:
  "keep_task Pending = (\<lambda>t. \<not> task_completed t)"
  "keep_task Completed = task_completed"
  "keep_task All = (\<lambda>t. True)"
  by (rule ext, simp add: keep_task_def)+

lemma fold_push_campaign_mem:
  assumes "t \<in> set (fst (fold (push_campaign p v) cs (tasks, i)))"
  shows "t \<in> set tasks \<or>
     (\<exists>camp\<in>set cs. \<exists>ss j. camp_steps camp = Some ss \<and>
        (\<exists>step\<in>set ss. t = mk_task p (fst (campaign_start p j camp)) camp step
           \<and> step_type step \<noteq> ''Wait'' \<and> step_owner step = v))"
  using assms
proof (induction cs arbitrary: tasks i)
  case Nil
  then show ?case by simp
next
  case (Cons c cs)
  show ?case
  proof (cases "camp_steps c")
    case None
    with Cons.prems have "t \<in> set (fst (fold (push_campaign p v) cs (tasks, i)))"
      by (simp add: push_campaign_None)
    from Cons.IH [OF this] show ?thesis by auto
  next
    case (Some ss)
    obtain sd i' where cs: "campaign_start p i c = (sd, i')" by (cases "campaign_start p i c")
    let ?new = "map (mk_task p sd c) (filter (\<lambda>s. step_type s \<noteq> ''Wait'' \<and> step_owner s = v) ss)"
    from Cons.prems Some cs
    have "t \<in> set (fst (fold (push_campaign p v) cs (tasks @ ?new, i')))"
      by (simp add: push_campaign_Some)
    from Cons.IH [OF this] consider "t \<in> set tasks" | "t \<in> set ?new"
      | "\<exists>camp\<in>set cs. \<exists>ss j. camp_steps camp = Some ss \<and>
        (\<exists>step\<in>set ss. t = mk_task p (fst (campaign_start p j camp)) camp step
           \<and> step_type step \<noteq> ''Wait'' \<and> step_owner step = v)"
      by auto
    then show ?thesis
    proof cases
      case 1
      then show ?thesis by simp
    next
      case 2
      then obtain step where "step \<in> set ss" "t = mk_task p sd c step"
        "step_type step \<noteq> ''Wait''" "step_owner step = v" by auto
      with Some cs have "\<exists>ss j. camp_steps c = Some ss \<and>
        (\<exists>step\<in>set ss. t = mk_task p (fst (campaign_start p j c)) c step
           \<and> step_type step \<noteq> ''Wait'' \<and> step_owner step = v)"
        by (intro exI [of _ ss] exI [of _ i]) auto
      then show ?thesis by simp
    next
      case 3
      then show ?thesis by auto
    qed
  qed
qed

lemma mset_js_insert: "mset (js_insert cmp x ys) = add_mset x (mset ys)"
  by (induction ys) auto

lemma mset_js_sort: "mset (js_sort cmp xs) = mset xs"
  by (induction xs) (auto simp: js_sort_def mset_js_insert)

lemma mset_displayedTasks:
  "mset (displayedTasks p flt m ts) = filter_mset (keep_task flt) (mset ts)"
  by (simp add: displayedTasks_def mset_js_sort)

lemma fold_push_campaign_mono:
  "t \<in> set tasks \<Longrightarrow> t \<in> set (fst (fold (push_campaign p v) cs (tasks, i)))"
proof (induction cs arbitrary: tasks i)
  case Nil
  then show ?case by simp
next
  case (Cons c cs)
  show ?case
  proof (cases "camp_steps c")
    case None
    with Cons show ?thesis by (simp add: push_campaign_None)
  next
    case (Some ss)
    obtain sd i' where cs: "campaign_start p i c = (sd, i')" by (cases "campaign_start p i c")
    let ?new = "map (mk_task p sd c) (filter (\<lambda>s. step_type s \<noteq> ''Wait'' \<and> step_owner s = v) ss)"
    from Cons.prems have "t \<in> set (tasks @ ?new)" by simp
    then have "t \<in> set (fst (fold (push_campaign p v) cs (tasks @ ?new, i')))" by (rule Cons.IH)
    then show ?thesis using Some cs by (simp add: push_campaign_Some)
  qed
qed

lemma fold_push_campaign_emits:
  assumes "camp \<in> set cs" and "camp_steps camp = Some ss" and "step \<in> set ss"
    and "step_type step \<noteq> ''Wait''" and "step_owner step = v"
  shows "\<exists>j. mk_task p (fst (campaign_start p j camp)) camp step
            \<in> set (fst (fold (push_campaign p v) cs (tasks, i)))"
  using assms(1)
proof (induction cs arbitrary: tasks i)
  case Nil
  then show ?case by simp
next
  case (Cons c cs)
  show ?case
  proof (cases "camp = c")
    case True
    obtain sd i' where cs: "campaign_start p i c = (sd, i')" by (cases "campaign_start p i c")
    let ?new = "map (mk_task p sd c) (filter (\<lambda>s. step_type s \<noteq> ''Wait'' \<and> step_owner s = v) ss)"
    have "mk_task p sd c step \<in> set (tasks @ ?new)" using assms(3,4,5) by simp
    then have "mk_task p sd c step \<in> set (fst (fold (push_campaign p v) cs (tasks @ ?new, i')))"
      by (rule fold_push_campaign_mono)
    then have "mk_task p (fst (campaign_start p i camp)) camp step
        \<in> set (fst (fold (push_campaign p v) (c # cs) (tasks, i)))"
      using True assms(2) cs by (simp add: push_campaign_Some)
    then show ?thesis ..
  next
    case False
    with Cons.prems have m: "camp \<in> set cs" by simp
    show ?thesis
    proof (cases "camp_steps c")
      case None
      with Cons.IH [OF m, of tasks i] show ?thesis by (simp add: push_campaign_None)
    next
      case (Some ss')
      obtain sd i' where cs: "campaign_start p i c = (sd, i')" by (cases "campaign_start p i c")
      from Cons.IH [OF m] Some cs show ?thesis by (simp add: push_campaign_Some)
    qed
  qed
qed

text \<open>
  C3. The viewer's name is the profile's full name when that is a non-empty string and
  the profile's email otherwise, and \<open>undefined\<close> while no profile is loaded. The tasks
  the projector emits are exactly those made from the steps of the campaigns whose type is
  not \<open>Wait\<close> and whose owner is strictly equal to the viewer's name: the same string, code
  unit for code unit, or missing in the same way as the name is. So a viewer whose name is
  a string is shown only steps owned under that very string, and a viewer without a name
  only steps without an owner. Under \<open>pending\<close> the displayed tasks are the ones not
  completed, under \<open>completed\<close> the completed ones, under \<open>all\<close> all of them; the first
  two share no task and together are the third.
\<close>

theorem tasks_are_own_non_wait_steps_and_filter_partitions:
  "(\<forall>t\<in>set (allTasks p prof campaigns).
      \<exists>camp\<in>set campaigns. \<exists>ss j. camp_steps camp = Some ss \<and>
        (\<exists>step\<in>set ss. t = mk_task p (fst (campaign_start p j camp)) camp step
           \<and> step_type step \<noteq> ''Wait''
           \<and> step_owner step = currentUserName prof
           \<and> task_completed t = step_completed step))
   \<and> (\<forall>camp\<in>set campaigns. \<forall>ss. camp_steps camp = Some ss \<longrightarrow>
        (\<forall>step\<in>set ss. step_type step \<noteq> ''Wait'' \<and> step_owner step = currentUserName prof \<longrightarrow>
           (\<exists>j. mk_task p (fst (campaign_start p j camp)) camp step
                  \<in> set (allTasks p prof campaigns))))
   \<and> (prof = None \<longrightarrow> currentUserName prof = JSUndefined)
   \<and> (\<forall>u. prof = Some u \<longrightarrow>
         currentUserName prof = (if js_truthy (full_name u) then full_name u else email u))
   \<and> mset (displayedTasks p Pending m ts) = filter_mset (\<lambda>t. \<not> task_completed t) (mset ts)
   \<and> mset (displayedTasks p Completed m ts) = filter_mset (\<lambda>t. task_completed t) (mset ts)
   \<and> mset (displayedTasks p All m ts) = mset ts
   \<and> mset (displayedTasks p Pending m ts) + mset (displayedTasks p Completed m ts)
       = mset (displayedTasks p All m ts)
   \<and> set (displayedTasks p Pending m ts) \<inter> set (displayedTasks p Completed m ts) = {}"
proof (intro conjI ballI allI impI)
  fix t assume "t \<in> set (allTasks p prof campaigns)"
  then have "t \<in> set (fst (fold (push_campaign p (currentUserName prof)) campaigns ([], 0)))"
    by (simp add: allTasks_def)
  from fold_push_campaign_mem [OF this]
  show "\<exists>camp\<in>set campaigns. \<exists>ss j. camp_steps camp = Some ss \<and>
        (\<exists>step\<in>set ss. t = mk_task p (fst (campaign_start p j camp)) camp step
           \<and> step_type step \<noteq> ''Wait''
           \<and> step_owner step = currentUserName prof
           \<and> task_completed t = step_completed step)"
    by (fastforce simp: mk_task_def)
next
  fix camp ss step
  assume "camp \<in> set campaigns" "camp_steps camp = Some ss" "step \<in> set ss"
    and "step_type step \<noteq> ''Wait'' \<and> step_owner step = currentUserName prof"
  then show "\<exists>j. mk_task p (fst (campaign_start p j camp)) camp step \<in> set (allTasks p prof campaigns)"
    unfolding allTasks_def by (intro fold_push_campaign_emits) simp_all
next
  assume "prof = None"
  then show "currentUserName prof = JSUndefined"
    by (simp add: currentUserName_def js_or_def)
next
  fix u assume "prof = Some u"
  then show "currentUserName prof = (if js_truthy (full_name u) then full_name u else email u)"
    by (simp add: currentUserName_def js_or_def)
next
  show p: "mset (displayedTasks p Pending m ts) = filter_mset (\<lambda>t. \<not> task_completed t) (mset ts)"
    by (simp add: mset_displayedTasks keep_task_simps)
  show c: "mset (displayedTasks p Completed m ts) = filter_mset (\<lambda>t. task_completed t) (mset ts)"
    by (simp add: mset_displayedTasks keep_task_simps)
  show a: "mset (displayedTasks p All m ts) = mset ts"
    by (simp add: mset_displayedTasks keep_task_simps)
  show "mset (displayedTasks p Pending m ts) + mset (displayedTasks p Completed m ts)
       = mset (displayedTasks p All m ts)"
    unfolding p c a by (induction ts) auto
  have "set (displayedTasks p Pending m ts) = {t \<in> set ts. \<not> task_completed t}"
    "set (displayedTasks p Completed m ts) = {t \<in> set ts. task_completed t}"
    using p c by (metis set_mset_mset set_mset_filter)+
  then show "set (displayedTasks p Pending m ts) \<inter> set (displayedTasks p Completed m ts) = {}"
    by auto
qed

lemma allTasks_example:
  "allTasks example_platform (Some example_profile) [example_campaign]
     = [mk_task example_platform (Some 1704067200000) example_campaign email_step,
        mk_task example_platform (Some 1704067200000) example_campaign call_step]"
  by (simp add: allTasks_def push_campaign_def campaign_start_def push_step_def currentUserName_def
        example_profile_def example_defs)

theorem tasks_are_own_non_wait_steps_and_filter_partitions_witness:
  "allTasks example_platform (Some example_profile) [example_campaign] \<noteq> []
   \<and> list_all
        (\<lambda>t. \<exists>camp\<in>set [example_campaign]. \<exists>ss j. camp_steps camp = Some ss \<and>
          (\<exists>step\<in>set ss. t = mk_task example_platform (fst (campaign_start example_platform j camp)) camp step
             \<and> step_type step \<noteq> ''Wait''
             \<and> step_owner step = JSString ''Ana Silva''
             \<and> task_completed t = step_completed step))
        (allTasks example_platform (Some example_profile) [example_campaign])
   \<and> currentUserName (Some example_profile) = JSString ''Ana Silva''
   \<and> allTasks example_platform (Some example_profile) [lowercase_campaign] = []
   \<and> example_campaign \<in> set [example_campaign]
   \<and> camp_steps example_campaign = Some example_steps
   \<and> call_step \<in> set example_steps
   \<and> step_type call_step \<noteq> ''Wait''
   \<and> step_owner call_step = currentUserName (Some example_profile)
   \<and> (\<exists>j. mk_task example_platform (fst (campaign_start example_platform j example_campaign))
              example_campaign call_step
            \<in> set (allTasks example_platform (Some example_profile) [example_campaign]))"
proof -
  note T = tasks_are_own_non_wait_steps_and_filter_partitions
             [where p = example_platform and prof = "Some example_profile"
                and campaigns = "[example_campaign]"]
  have 1: "allTasks example_platform (Some example_profile) [example_campaign] \<noteq> []"
    by (simp add: allTasks_example)
  have 2: "currentUserName (Some example_profile) = JSString ''Ana Silva''"
    using T [THEN conjunct2, THEN conjunct2, THEN conjunct2, THEN conjunct1, rule_format, of example_profile]
    by (simp add: example_profile_def js_truthy_def)
  have 3: "allTasks example_platform (Some example_profile) [lowercase_campaign] = []"
    by (simp add: allTasks_def push_campaign_def campaign_start_def push_step_def currentUserName_def
          example_profile_def lowercase_campaign_def example_defs)
  have 4: "list_all
        (\<lambda>t. \<exists>camp\<in>set [example_campaign]. \<exists>ss j. camp_steps camp = Some ss \<and>
          (\<exists>step\<in>set ss. t = mk_task example_platform (fst (campaign_start example_platform j camp)) camp step
             \<and> step_type step \<noteq> ''Wait''
             \<and> step_owner step = JSString ''Ana Silva''
             \<and> task_completed t = step_completed step))
        (allTasks example_platform (Some example_profile) [example_campaign])"
    unfolding list_all_iff
  proof
    fix t assume "t \<in> set (allTasks example_platform (Some example_profile) [example_campaign])"
    from T [THEN conjunct1, rule_format, OF this] show
      "\<exists>camp\<in>set [example_campaign]. \<exists>ss j. camp_steps camp = Some ss \<and>
          (\<exists>step\<in>set ss. t = mk_task example_platform (fst (campaign_start example_platform j camp)) camp step
             \<and> step_type step \<noteq> ''Wait''
             \<and> step_owner step = JSString ''Ana Silva''
             \<and> task_completed t = step_completed step)"
      unfolding 2 by blast
  qed
  have 5: "example_campaign \<in> set [example_campaign]" by simp
  have 6: "camp_steps example_campaign = Some example_steps" by (simp add: example_campaign_def)
  have 7: "call_step \<in> set example_steps" by (simp add: example_steps_def)
  have 8: "step_type call_step \<noteq> ''Wait''" by (simp add: call_step_def)
  have 9: "step_owner call_step = currentUserName (Some example_profile)"
    unfolding 2 by (simp add: call_step_def)
  from 8 9 have 89: "step_type call_step \<noteq> ''Wait''
      \<and> step_owner call_step = currentUserName (Some example_profile)" ..
  have 10: "\<exists>j. mk_task example_platform (fst (campaign_start example_platform j example_campaign))
              example_campaign call_step
            \<in> set (allTasks example_platform (Some example_profile) [example_campaign])"
    using T [THEN conjunct2, THEN conjunct1, rule_format, OF 5 6 7 89] .
  from 1 4 2 3 5 6 7 8 9 10 show ?thesis by (intro conjI)
qed

text \<open>
  While no profile is loaded the viewer has no name, and the projector emits the steps
  that have no owner, here the one non-Wait step of such a campaign, labelled as
  unassigned.
\<close>

theorem tasks_are_own_non_wait_steps_and_filter_partitions_counterexample:
  "currentUserName None = JSUndefined
   \<and> camp_steps ownerless_campaign = Some [wait_step, ownerless_step]
   \<and> step_owner ownerless_step = JSUndefined
   \<and> allTasks example_platform None [ownerless_campaign]
       = [mk_task example_platform (Some 1704067200000) ownerless_campaign ownerless_step]
   \<and> map task_id (allTasks example_platform None [ownerless_campaign]) = [''s3'']
   \<and> map task_owner (allTasks example_platform None [ownerless_campaign]) = [unassigned]"
  by (simp add: allTasks_def push_campaign_def campaign_start_def push_step_def currentUserName_def
        ownerless_campaign_def ownerless_step_def example_defs)

section \<open>Toggling twice\<close>

lemma camp_id_row_to_campaign: "camp_id (row_to_campaign x) = Some (row_id x)"
  by (simp add: row_to_campaign_def)

lemma find_own_row:
  "distinct (map row_id db) \<Longrightarrow> r \<in> set db \<Longrightarrow> Some (row_user_id r) = u \<Longrightarrow>
     find (\<lambda>c. camp_id c = Some (row_id r))
          (map row_to_campaign (filter (\<lambda>x. Some (row_user_id x) = u) db))
       = Some (row_to_campaign r)"
proof (induction db)
  case Nil
  then show ?case by simp
next
  case (Cons x db)
  show ?case
  proof (cases "x = r")
    case True
    with Cons.prems show ?thesis by (simp add: camp_id_row_to_campaign)
  next
    case False
    with Cons.prems have "r \<in> set db" "row_id x \<noteq> row_id r" by auto
    with Cons show ?thesis by (simp add: camp_id_row_to_campaign)
  qed
qed

lemma complete_task_effect:
  assumes "distinct (map row_id db)" and "r \<in> set db" and "row_id r = task_campaignId t"
    and "truthy userId" and "Some (row_user_id r) = userId" and "row_steps r = Some ss"
  shows "complete_task p userId t db =
           map (\<lambda>x. if row_id x = row_id r then update_row (toggle_payload p (task_id t) ss) x else x) db"
proof -
  have "find (\<lambda>c. camp_id c = Some (task_campaignId t)) (fetchCampaigns userId db)
          = Some (row_to_campaign r)"
    using find_own_row [OF assms(1,2,5)] assms(3,4) by (simp add: fetchCampaigns_def)
  moreover have "camp_steps (row_to_campaign r) = Some ss"
    using assms(6) by (simp add: row_to_campaign_def)
  ultimately have "handleCompleteTask p (fetchCampaigns userId db) t
      = Some (task_campaignId t, toggle_payload p (task_id t) ss)"
    using handleCompleteTask_Some [of t "fetchCampaigns userId db" "row_to_campaign r" ss p]
    by (simp add: toggle_payload_def)
  then show ?thesis using assms(3) by (simp add: complete_task_def db_update_def)
qed

text \<open>
  C4. Two toggles of the same step in succession, each followed by the page's refresh,
  leave the campaign's row with its original step list and with the progress, sent count
  and total points the Campaign Aggregator computes from that list; a row that held those
  values before (as every row written by a save or by a toggle does) is the same row again,
  but for \<open>updated_at\<close>. Rows of other campaigns are not touched.
\<close>

theorem toggle_twice_restores_steps_and_aggregates:
  assumes "distinct (map row_id db)" and "r \<in> set db" and "row_id r = task_campaignId t"
    and "truthy userId" and "Some (row_user_id r) = userId" and "row_steps r = Some ss"
    and "task_id t' = task_id t" and "task_campaignId t' = task_campaignId t"
  shows "complete_task p' userId t' (complete_task p userId t db)
           = map (\<lambda>x. if row_id x = row_id r
                      then x\<lparr>row_steps := Some ss,
                             row_progress := snd (snd (save_aggregates (Some ss))),
                             row_sent := int (fst (save_aggregates (Some ss))),
                             row_total_points := fst (snd (save_aggregates (Some ss))),
                             row_updated_at := Some (toISOString p' (clock p' 0))\<rparr>
                      else x) db
         \<and> (row_progress r = snd (snd (save_aggregates (Some ss)))
              \<and> row_sent r = int (fst (save_aggregates (Some ss)))
              \<and> row_total_points r = fst (snd (save_aggregates (Some ss))) \<longrightarrow>
            complete_task p' userId t' (complete_task p userId t db)
              = map (\<lambda>x. if x = r then r\<lparr>row_updated_at := Some (toISOString p' (clock p' 0))\<rparr> else x) db)"
proof -
  let ?f = "\<lambda>x. if row_id x = row_id r then update_row (toggle_payload p (task_id t) ss) x else x"
  let ?db1 = "map ?f db"
  let ?r1 = "update_row (toggle_payload p (task_id t) ss) r"
  have one: "complete_task p userId t db = ?db1"
    by (rule complete_task_effect [OF assms(1-6)])
  have ids: "map row_id ?db1 = map row_id db"
    by (simp add: update_row_toggle_payload)
  have r1: "?r1 \<in> set ?db1" using assms(2) by force
  have r1_id: "row_id ?r1 = row_id r" by (simp add: update_row_toggle_payload)
  have two: "complete_task p' userId t' ?db1 =
     map (\<lambda>x. if row_id x = row_id ?r1
               then update_row (toggle_payload p' (task_id t') (updatedSteps (task_id t) ss)) x else x) ?db1"
  proof (rule complete_task_effect)
    show "distinct (map row_id ?db1)" unfolding ids by (rule assms(1))
    show "?r1 \<in> set ?db1" by (rule r1)
    show "row_id ?r1 = task_campaignId t'" using assms(3,8) by (simp add: update_row_toggle_payload)
    show "truthy userId" by (rule assms(4))
    show "Some (row_user_id ?r1) = userId" using assms(5) by (simp add: update_row_toggle_payload)
    show "row_steps ?r1 = Some (updatedSteps (task_id t) ss)" by (simp add: update_row_toggle_payload)
  qed
  have both: "complete_task p' userId t' (complete_task p userId t db)
           = map (\<lambda>x. if row_id x = row_id r
                      then x\<lparr>row_steps := Some ss,
                             row_progress := snd (snd (save_aggregates (Some ss))),
                             row_sent := int (fst (save_aggregates (Some ss))),
                             row_total_points := fst (snd (save_aggregates (Some ss))),
                             row_updated_at := Some (toISOString p' (clock p' 0))\<rparr>
                      else x) db"
    unfolding one two
    by (simp add: update_row_toggle_payload assms(7) updatedSteps_twice)
  have same_id: "row_id x = row_id r \<longleftrightarrow> x = r" if "x \<in> set db" for x
    using that assms(1,2) by (meson distinct_map inj_onD)
  have "map (\<lambda>x. if row_id x = row_id r
                      then x\<lparr>row_steps := Some ss,
                             row_progress := snd (snd (save_aggregates (Some ss))),
                             row_sent := int (fst (save_aggregates (Some ss))),
                             row_total_points := fst (snd (save_aggregates (Some ss))),
                             row_updated_at := Some (toISOString p' (clock p' 0))\<rparr>
                      else x) db
        = map (\<lambda>x. if x = r then r\<lparr>row_updated_at := Some (toISOString p' (clock p' 0))\<rparr> else x) db"
    if "row_progress r = snd (snd (save_aggregates (Some ss)))
              \<and> row_sent r = int (fst (save_aggregates (Some ss)))
              \<and> row_total_points r = fst (snd (save_aggregates (Some ss)))"
  proof (rule map_cong [OF refl])
    fix x assume "x \<in> set db"
    from same_id [OF this] that assms(6)
    show "(if row_id x = row_id r
                      then x\<lparr>row_steps := Some ss,
                             row_progress := snd (snd (save_aggregates (Some ss))),
                             row_sent := int (fst (save_aggregates (Some ss))),
                             row_total_points := fst (snd (save_aggregates (Some ss))),
                             row_updated_at := Some (toISOString p' (clock p' 0))\<rparr>
                      else x)
        = (if x = r then r\<lparr>row_updated_at := Some (toISOString p' (clock p' 0))\<rparr> else x)"
      by (cases r) auto
  qed
  with both show ?thesis by simp
qed

lemma percent_1_2: "percent (Suc 0) 2 = 50"
  by code_simp

lemma save_aggregates_example: "save_aggregates (Some example_steps) = (1, 15, 50)"
proof -
  have "completedSteps example_steps = 1" "length (activeSteps example_steps) = 2"
    "reduce_points example_steps = 15"
    by (simp_all add: completedSteps_def activeSteps_def reduce_points_def points_or_0_def
          number_add_exact example_defs)
  then show ?thesis by (simp add: save_aggregates_Some percent_1_2)
qed

theorem toggle_twice_restores_steps_and_aggregates_witness:
  "distinct (map row_id [example_row]) \<and> example_row \<in> set [example_row]
   \<and> row_id example_row = task_campaignId example_task
   \<and> truthy (Some ''u1'') \<and> Some (row_user_id example_row) = Some ''u1''
   \<and> row_steps example_row = Some example_steps
   \<and> row_progress example_row = snd (snd (save_aggregates (Some example_steps)))
   \<and> row_sent example_row = int (fst (save_aggregates (Some example_steps)))
   \<and> row_total_points example_row = fst (snd (save_aggregates (Some example_steps)))
   \<and> complete_task example_platform (Some ''u1'') example_task
        (complete_task example_platform (Some ''u1'') example_task [example_row])
       = [example_row\<lparr>row_updated_at := Some ''2024-06-01T00:00:00.000Z''\<rparr>]"
proof -
  have h: "distinct (map row_id [example_row])" "example_row \<in> set [example_row]"
    "row_id example_row = task_campaignId example_task"
    "truthy (Some ''u1'')" "Some (row_user_id example_row) = Some ''u1''"
    "row_steps example_row = Some example_steps"
    by (simp_all add: example_row_def example_defs)
  have a: "row_progress example_row = snd (snd (save_aggregates (Some example_steps)))
     \<and> row_sent example_row = int (fst (save_aggregates (Some example_steps)))
     \<and> row_total_points example_row = fst (snd (save_aggregates (Some example_steps)))"
    by (simp add: save_aggregates_example example_row_def)
  from toggle_twice_restores_steps_and_aggregates
         [OF h refl refl, of example_platform example_platform, THEN conjunct2, rule_format, OF a]
  have "complete_task example_platform (Some ''u1'') example_task
        (complete_task example_platform (Some ''u1'') example_task [example_row])
       = [example_row\<lparr>row_updated_at := Some ''2024-06-01T00:00:00.000Z''\<rparr>]"
    by (simp add: example_platform_def)
  with h a show ?thesis by (elim conjE) (intro conjI; assumption)
qed

section \<open>The sort\<close>

lemma set_js_insert: "set (js_insert cmp x ys) = insert x (set ys)"
  by (induction ys) auto

lemma js_sort_Cons: "js_sort cmp (x # xs) = js_insert cmp x (js_sort cmp xs)"
  by (simp add: js_sort_def)

lemma set_js_sort: "set (js_sort cmp xs) = set xs"
  by (induction xs) (auto simp: js_sort_Cons set_js_insert js_sort_def)

lemma consistent_total:
  "consistent_on cmp A \<Longrightarrow> x \<in> A \<Longrightarrow> y \<in> A \<Longrightarrow> before cmp x y \<or> before cmp y x"
  unfolding consistent_on_def by blast

lemma consistent_trans:
  "consistent_on cmp A \<Longrightarrow> x \<in> A \<Longrightarrow> y \<in> A \<Longrightarrow> z \<in> A \<Longrightarrow>
     before cmp x y \<Longrightarrow> before cmp y z \<Longrightarrow> before cmp x z"
  unfolding consistent_on_def by blast

lemma js_insert_Cons:
  "js_insert cmp x (y # ys) = (if before cmp x y then x # y # ys else y # js_insert cmp x ys)"
  by (simp add: before_def)

lemma sorted_js_insert:
  assumes "consistent_on cmp A" and "x \<in> A" and "set ys \<subseteq> A" and "sorted_wrt (before cmp) ys"
  shows "sorted_wrt (before cmp) (js_insert cmp x ys)"
  using assms(3,4)
proof (induction ys)
  case Nil
  then show ?case by simp
next
  case (Cons y ys)
  from Cons.prems(1) have yA: "y \<in> A" and ysA: "set ys \<subseteq> A" by simp_all
  from Cons.prems(2) have y_ys: "\<forall>z\<in>set ys. before cmp y z" and s_ys: "sorted_wrt (before cmp) ys"
    by simp_all
  show ?case
  proof (cases "before cmp x y")
    case True
    have "before cmp x z" if "z \<in> set ys" for z
    proof -
      from that ysA have "z \<in> A" by blast
      moreover from that y_ys have "before cmp y z" by blast
      ultimately show ?thesis using consistent_trans [OF assms(1,2) yA _ True] by blast
    qed
    with True Cons.prems(2) show ?thesis by (simp add: js_insert_Cons del: js_insert.simps(2))
  next
    case False
    with consistent_total [OF assms(1,2) yA] have yx: "before cmp y x" by blast
    from Cons.IH [OF ysA s_ys] have "sorted_wrt (before cmp) (js_insert cmp x ys)" .
    with False yx y_ys show ?thesis by (simp add: js_insert_Cons set_js_insert del: js_insert.simps(2))
  qed
qed

lemma sorted_js_sort:
  assumes "consistent_on cmp A" and "set xs \<subseteq> A"
  shows "sorted_wrt (before cmp) (js_sort cmp xs)"
  using assms(2)
proof (induction xs)
  case Nil
  then show ?case by (simp add: js_sort_def)
next
  case (Cons x xs)
  then have "sorted_wrt (before cmp) (js_sort cmp xs)" by simp
  with Cons.prems show ?case
    unfolding js_sort_Cons by (intro sorted_js_insert [OF assms(1)]) (auto simp: set_js_sort)
qed

text \<open>Stability: the elements that compare equal to a given one keep their order.\<close>

lemma filter_js_insert:
  assumes "consistent_on cmp A" and "x \<in> A" and "set ys \<subseteq> A" and "z \<in> A"
  shows "filter (\<lambda>y. before cmp z y \<and> before cmp y z) (js_insert cmp x ys)
           = filter (\<lambda>y. before cmp z y \<and> before cmp y z) (x # ys)"
  using assms(3)
proof (induction ys)
  case Nil
  then show ?case by simp
next
  case (Cons y ys)
  from Cons.prems have yA: "y \<in> A" and ysA: "set ys \<subseteq> A" by simp_all
  show ?case
  proof (cases "before cmp x y")
    case True
    then show ?thesis by (simp add: js_insert_Cons del: js_insert.simps(2))
  next
    case False
    have not_both: "\<not> ((before cmp z x \<and> before cmp x z) \<and> (before cmp z y \<and> before cmp y z))"
    proof
      assume a: "(before cmp z x \<and> before cmp x z) \<and> (before cmp z y \<and> before cmp y z)"
      then have "before cmp x z" "before cmp z y" by simp_all
      then have "before cmp x y" by (rule consistent_trans [OF assms(1,2,4) yA])
      with False show False by simp
    qed
    from Cons.IH [OF ysA]
    have "filter (\<lambda>y. before cmp z y \<and> before cmp y z) (js_insert cmp x ys)
           = filter (\<lambda>y. before cmp z y \<and> before cmp y z) (x # ys)" .
    with False not_both show ?thesis by (auto simp: js_insert_Cons simp del: js_insert.simps(2))
  qed
qed

lemma filter_js_sort:
  assumes "consistent_on cmp A" and "set xs \<subseteq> A" and "z \<in> A"
  shows "filter (\<lambda>y. before cmp z y \<and> before cmp y z) (js_sort cmp xs)
           = filter (\<lambda>y. before cmp z y \<and> before cmp y z) xs"
  using assms(2)
proof (induction xs)
  case Nil
  then show ?case by (simp add: js_sort_def)
next
  case (Cons x xs)
  then have "filter (\<lambda>y. before cmp z y \<and> before cmp y z) (js_sort cmp xs)
           = filter (\<lambda>y. before cmp z y \<and> before cmp y z) xs" by simp
  moreover have "filter (\<lambda>y. before cmp z y \<and> before cmp y z) (js_insert cmp x (js_sort cmp xs))
           = filter (\<lambda>y. before cmp z y \<and> before cmp y z) (x # js_sort cmp xs)"
    using Cons.prems by (intro filter_js_insert [OF assms(1) _ _ assms(3)]) (auto simp: set_js_sort)
  ultimately show ?case by (simp add: js_sort_Cons)
qed

text \<open>On valid dates the two date comparators are the order of the time values.\<close>

lemma before_by_date:
  "task_date a = Some x \<Longrightarrow> task_date b = Some y \<Longrightarrow>
     before (task_compare p ByDate) a b \<longleftrightarrow> x \<le> y"
  by (simp add: before_def sort_compare_def task_compare_def time_diff_def)

lemma before_newest_first:
  "item_date a = Some x \<Longrightarrow> item_date b = Some y \<Longrightarrow>
     before newest_first a b \<longleftrightarrow> y \<le> x"
  by (simp add: before_def sort_compare_def newest_first_def time_diff_def)

lemma consistent_by_date:
  assumes "\<forall>t\<in>A. task_date t \<noteq> None"
  shows "consistent_on (task_compare p ByDate) A"
proof -
  have v: "\<exists>x. task_date t = Some x" if "t \<in> A" for t using assms that by auto
  show ?thesis
    unfolding consistent_on_def
  proof (intro conjI ballI impI)
    fix a b assume ab: "a \<in> A" "b \<in> A"
    from v [OF ab(1)] obtain x where x: "task_date a = Some x" ..
    from v [OF ab(2)] obtain y where y: "task_date b = Some y" ..
    from x y show "before (task_compare p ByDate) a b \<or> before (task_compare p ByDate) b a"
      by (simp add: before_by_date) linarith
  next
    fix a b c assume abc: "a \<in> A" "b \<in> A" "c \<in> A"
      and h: "before (task_compare p ByDate) a b \<and> before (task_compare p ByDate) b c"
    from v [OF abc(1)] obtain x where x: "task_date a = Some x" ..
    from v [OF abc(2)] obtain y where y: "task_date b = Some y" ..
    from v [OF abc(3)] obtain z where z: "task_date c = Some z" ..
    from h x y z show "before (task_compare p ByDate) a c" by (simp add: before_by_date)
  qed
qed

lemma consistent_newest_first:
  assumes "\<forall>t\<in>A. item_date t \<noteq> None"
  shows "consistent_on newest_first A"
proof -
  have v: "\<exists>x. item_date t = Some x" if "t \<in> A" for t using assms that by auto
  show ?thesis
    unfolding consistent_on_def
  proof (intro conjI ballI impI)
    fix a b assume ab: "a \<in> A" "b \<in> A"
    from v [OF ab(1)] obtain x where x: "item_date a = Some x" ..
    from v [OF ab(2)] obtain y where y: "item_date b = Some y" ..
    from x y show "before newest_first a b \<or> before newest_first b a"
      by (simp add: before_newest_first) linarith
  next
    fix a b c assume abc: "a \<in> A" "b \<in> A" "c \<in> A"
      and h: "before newest_first a b \<and> before newest_first b c"
    from v [OF abc(1)] obtain x where x: "item_date a = Some x" ..
    from v [OF abc(2)] obtain y where y: "item_date b = Some y" ..
    from v [OF abc(3)] obtain z where z: "item_date c = Some z" ..
    from h x y z show "before newest_first a c" by (simp add: before_newest_first)
  qed
qed

lemma sorted_wrt_mono_on:
  "sorted_wrt P xs \<Longrightarrow> (\<And>x y. x \<in> set xs \<Longrightarrow> y \<in> set xs \<Longrightarrow> P x y \<Longrightarrow> Q x y) \<Longrightarrow> sorted_wrt Q xs"
  by (induction xs) auto

lemma filter_cong_on:
  "(\<And>x. x \<in> set xs \<Longrightarrow> P x = Q x) \<Longrightarrow> filter P xs = filter Q xs"
  by (induction xs) auto

lemma before_by_recipient:
  "before (task_compare p ByRecipient) a b \<longleftrightarrow> localeCompare p (recipient a) (recipient b) \<le> 0"
  by (simp add: before_def sort_compare_def task_compare_def)

lemma recipient_mk_task:
  "recipient (mk_task p sd camp step)
     = or_default (step_targetContactName step) (or_default (camp_targetCompany camp) [])"
  by (simp add: recipient_def mk_task_def or_default_def split: option.splits)

section \<open>Order of the timeline\<close>

text \<open>
  C6 (amended). When every event of the timeline has a valid date, the feed is in
  descending order of date, events of the same date stand in the order in which they were
  inserted, and the feed holds exactly the events inserted.
\<close>

theorem timeline_newest_first_and_stable_on_valid_dates:
  assumes "\<forall>e\<in>set (timeline_events p data camps). item_date e \<noteq> None"
  shows "sorted_wrt (\<lambda>a b. \<exists>x y. item_date a = Some x \<and> item_date b = Some y \<and> y \<le> x)
           (timelineItems p data camps)
     \<and> (\<forall>d. filter (\<lambda>e. item_date e = d) (timelineItems p data camps)
              = filter (\<lambda>e. item_date e = d) (timeline_events p data camps))
     \<and> mset (timelineItems p data camps) = mset (timeline_events p data camps)"
proof (intro conjI allI)
  let ?ev = "timeline_events p data camps"
  have c: "consistent_on newest_first (set ?ev)"
    using assms by (rule consistent_newest_first)
  have v: "\<exists>x. item_date e = Some x" if "e \<in> set ?ev" for e using assms that by auto
  have "sorted_wrt (before newest_first) (timelineItems p data camps)"
    unfolding timelineItems_def by (rule sorted_js_sort [OF c]) simp
  then show "sorted_wrt (\<lambda>a b. \<exists>x y. item_date a = Some x \<and> item_date b = Some y \<and> y \<le> x)
           (timelineItems p data camps)"
  proof (rule sorted_wrt_mono_on)
    fix a b assume "a \<in> set (timelineItems p data camps)" "b \<in> set (timelineItems p data camps)"
      and ab: "before newest_first a b"
    then have "a \<in> set ?ev" "b \<in> set ?ev" by (simp_all add: timelineItems_def set_js_sort)
    then obtain x y where xy: "item_date a = Some x" "item_date b = Some y" using v by blast
    with ab show "\<exists>x y. item_date a = Some x \<and> item_date b = Some y \<and> y \<le> x"
      by (simp add: before_newest_first)
  qed
next
  fix d
  let ?ev = "timeline_events p data camps"
  have c: "consistent_on newest_first (set ?ev)"
    using assms by (rule consistent_newest_first)
  have v: "\<exists>x. item_date e = Some x" if "e \<in> set ?ev" for e using assms that by auto
  show "filter (\<lambda>e. item_date e = d) (timelineItems p data camps) = filter (\<lambda>e. item_date e = d) ?ev"
  proof (cases "\<exists>z\<in>set ?ev. item_date z = d")
    case False
    then have "filter (\<lambda>e. item_date e = d) ?ev = []"
      "filter (\<lambda>e. item_date e = d) (timelineItems p data camps) = []"
      by (auto simp: filter_empty_conv timelineItems_def set_js_sort)
    then show ?thesis by simp
  next
    case True
    then obtain z where z: "z \<in> set ?ev" "item_date z = d" by blast
    have eq: "(before newest_first z e \<and> before newest_first e z) = (item_date e = d)"
      if "e \<in> set ?ev" for e
    proof -
      from v [OF that] obtain x where x: "item_date e = Some x" ..
      from v [OF z(1)] obtain y where y: "item_date z = Some y" ..
      from x y z(2) show ?thesis by (auto simp: before_newest_first)
    qed
    have "filter (\<lambda>e. item_date e = d) (js_sort newest_first ?ev)
        = filter (\<lambda>e. before newest_first z e \<and> before newest_first e z) (js_sort newest_first ?ev)"
      by (rule filter_cong_on) (simp add: set_js_sort eq)
    also have "\<dots> = filter (\<lambda>e. before newest_first z e \<and> before newest_first e z) ?ev"
      by (rule filter_js_sort [OF c _ z(1)]) simp
    also have "\<dots> = filter (\<lambda>e. item_date e = d) ?ev"
      by (rule filter_cong_on) (simp add: eq)
    finally show ?thesis by (simp add: timelineItems_def)
  qed
next
  show "mset (timelineItems p data camps) = mset (timeline_events p data camps)"
    by (simp add: timelineItems_def mset_js_sort)
qed

section \<open>Order of the displayed tasks\<close>

text \<open>
  C7 (amended). Sorted by date, tasks whose due dates are all valid stand in ascending
  order of due date, tasks of the same due date in their order in the task list. Sorted by
  recipient, they stand in ascending order of \<open>localeCompare\<close> on the recipient name,
  tasks of names that compare equal in their order in the task list, provided
  \<open>localeCompare\<close> is consistent on the names present. The recipient name of a projected
  task is the step's target contact, or the campaign's target company when the step has
  no target or an empty one; its due date is the campaign start moved on by the step's
  day offset.
\<close>

theorem displayed_tasks_sorted_stably:
  "((\<forall>t\<in>set ts. task_date t \<noteq> None) \<longrightarrow>
      sorted_wrt (\<lambda>a b. \<exists>x y. task_date a = Some x \<and> task_date b = Some y \<and> x \<le> y)
        (displayedTasks p flt ByDate ts)
      \<and> (\<forall>d. filter (\<lambda>t. task_date t = d) (displayedTasks p flt ByDate ts)
               = filter (\<lambda>t. task_date t = d) (filter (keep_task flt) ts)))
   \<and> (consistent_on (task_compare p ByRecipient) (set ts) \<longrightarrow>
      sorted_wrt (\<lambda>a b. localeCompare p (recipient a) (recipient b) \<le> 0)
        (displayedTasks p flt ByRecipient ts)
      \<and> (\<forall>z\<in>set ts.
            filter (\<lambda>t. localeCompare p (recipient z) (recipient t) \<le> 0
                        \<and> localeCompare p (recipient t) (recipient z) \<le> 0)
              (displayedTasks p flt ByRecipient ts)
            = filter (\<lambda>t. localeCompare p (recipient z) (recipient t) \<le> 0
                        \<and> localeCompare p (recipient t) (recipient z) \<le> 0)
                (filter (keep_task flt) ts)))
   \<and> recipient (mk_task p sd camp step)
       = or_default (step_targetContactName step) (or_default (camp_targetCompany camp) [])
   \<and> task_date (mk_task p sd camp step) = addDays p sd (step_day step)"
proof (intro conjI impI allI ballI)
  let ?fs = "filter (keep_task flt) ts"
  assume valid: "\<forall>t\<in>set ts. task_date t \<noteq> None"
  have c: "consistent_on (task_compare p ByDate) (set ts)"
    using valid by (rule consistent_by_date)
  have v: "\<exists>x. task_date e = Some x" if "e \<in> set ts" for e using valid that by auto
  have "sorted_wrt (before (task_compare p ByDate)) (displayedTasks p flt ByDate ts)"
    unfolding displayedTasks_def by (rule sorted_js_sort [OF c]) auto
  then show "sorted_wrt (\<lambda>a b. \<exists>x y. task_date a = Some x \<and> task_date b = Some y \<and> x \<le> y)
        (displayedTasks p flt ByDate ts)"
  proof (rule sorted_wrt_mono_on)
    fix a b assume "a \<in> set (displayedTasks p flt ByDate ts)" "b \<in> set (displayedTasks p flt ByDate ts)"
      and ab: "before (task_compare p ByDate) a b"
    then have "a \<in> set ts" "b \<in> set ts" by (simp_all add: displayedTasks_def set_js_sort)
    then obtain x y where xy: "task_date a = Some x" "task_date b = Some y" using v by blast
    with ab show "\<exists>x y. task_date a = Some x \<and> task_date b = Some y \<and> x \<le> y"
      by (simp add: before_by_date)
  qed
  fix d
  show "filter (\<lambda>t. task_date t = d) (displayedTasks p flt ByDate ts)
               = filter (\<lambda>t. task_date t = d) ?fs"
  proof (cases "\<exists>z\<in>set ts. task_date z = d")
    case False
    then have "filter (\<lambda>e. task_date e = d) ?fs = []"
      "filter (\<lambda>e. task_date e = d) (displayedTasks p flt ByDate ts) = []"
      by (auto simp: filter_empty_conv displayedTasks_def set_js_sort)
    then show ?thesis by simp
  next
    case True
    then obtain z where z: "z \<in> set ts" "task_date z = d" by blast
    have eq: "(before (task_compare p ByDate) z e \<and> before (task_compare p ByDate) e z) = (task_date e = d)"
      if "e \<in> set ts" for e
    proof -
      from v [OF that] obtain x where x: "task_date e = Some x" ..
      from v [OF z(1)] obtain y where y: "task_date z = Some y" ..
      from x y z(2) show ?thesis by (auto simp: before_by_date)
    qed
    have "filter (\<lambda>e. task_date e = d) (js_sort (task_compare p ByDate) ?fs)
        = filter (\<lambda>e. before (task_compare p ByDate) z e \<and> before (task_compare p ByDate) e z)
            (js_sort (task_compare p ByDate) ?fs)"
      by (rule filter_cong_on) (simp add: set_js_sort eq)
    also have "\<dots> = filter (\<lambda>e. before (task_compare p ByDate) z e \<and> before (task_compare p ByDate) e z) ?fs"
      by (rule filter_js_sort [OF c _ z(1)]) auto
    also have "\<dots> = filter (\<lambda>e. task_date e = d) ?fs"
      by (rule filter_cong_on) (simp add: eq)
    finally show ?thesis by (simp add: displayedTasks_def)
  qed
next
  let ?fs = "filter (keep_task flt) ts"
  assume c: "consistent_on (task_compare p ByRecipient) (set ts)"
  have "sorted_wrt (before (task_compare p ByRecipient)) (displayedTasks p flt ByRecipient ts)"
    unfolding displayedTasks_def by (rule sorted_js_sort [OF c]) auto
  then show "sorted_wrt (\<lambda>a b. localeCompare p (recipient a) (recipient b) \<le> 0)
        (displayedTasks p flt ByRecipient ts)"
    by (simp add: before_by_recipient [abs_def])
  fix z assume z: "z \<in> set ts"
  have "filter (\<lambda>t. before (task_compare p ByRecipient) z t \<and> before (task_compare p ByRecipient) t z)
          (js_sort (task_compare p ByRecipient) ?fs)
      = filter (\<lambda>t. before (task_compare p ByRecipient) z t \<and> before (task_compare p ByRecipient) t z) ?fs"
    by (rule filter_js_sort [OF c _ z]) auto
  then show "filter (\<lambda>t. localeCompare p (recipient z) (recipient t) \<le> 0
                        \<and> localeCompare p (recipient t) (recipient z) \<le> 0)
              (displayedTasks p flt ByRecipient ts)
            = filter (\<lambda>t. localeCompare p (recipient z) (recipient t) \<le> 0
                        \<and> localeCompare p (recipient t) (recipient z) \<le> 0) ?fs"
    by (simp add: before_by_recipient displayedTasks_def)
next
  show "recipient (mk_task p sd camp step)
       = or_default (step_targetContactName step) (or_default (camp_targetCompany camp) [])"
    by (rule recipient_mk_task)
  show "task_date (mk_task p sd camp step) = addDays p sd (step_day step)"
    by (simp add: mk_task_def)
qed

section \<open>The tag grammar\<close>

lemma history_matches_Nil: "history_matches [] = []"
  by (subst history_matches.simps) simp

lemma history_matches_Cons:
  "history_matches (c # cs) =
     (case match_at (c # cs) of
        None \<Rightarrow> history_matches cs
      | Some (d, m, rest) \<Rightarrow> (d, m) # history_matches rest)"
  by (subst history_matches.simps) (simp split: option.splits)

lemma match_at_other:
  "c \<noteq> CHR ''['' \<Longrightarrow> match_at (c # cs) = None"
  by (simp add: match_at_def)

lemma history_matches_other:
  "c \<noteq> CHR ''['' \<Longrightarrow> history_matches (c # cs) = history_matches cs"
  by (simp add: history_matches_Cons match_at_other)

text \<open>A line terminator ends every match that could reach it.\<close>

lemma lazy_date_append:
  "is_line_terminator l \<Longrightarrow>
     lazy_date (x @ l # b) = (case lazy_date x of None \<Rightarrow> None | Some (d, r) \<Rightarrow> Some (d, r @ l # b))"
proof (induction x)
  case Nil
  then show ?case by (auto simp: is_line_terminator_def)
next
  case (Cons c cs)
  then show ?case
    by (cases cs) (auto simp: is_line_terminator_def split: option.splits)
qed

lemma takeWhile_line:
  "is_line_terminator l \<Longrightarrow>
     takeWhile (\<lambda>c. \<not> is_line_terminator c) (r @ l # b) = takeWhile (\<lambda>c. \<not> is_line_terminator c) r"
  by (induction r) auto

lemma dropWhile_line:
  "is_line_terminator l \<Longrightarrow>
     dropWhile (\<lambda>c. \<not> is_line_terminator c) (r @ l # b)
       = dropWhile (\<lambda>c. \<not> is_line_terminator c) r @ l # b"
  by (induction r) auto

lemma take_tag_append:
  assumes "is_line_terminator l"
  shows "take 15 (a @ l # b) = ''[HISTORY:MOVED:'' \<longleftrightarrow> take 15 a = ''[HISTORY:MOVED:''"
proof (cases "15 \<le> length a")
  case True
  then show ?thesis by simp
next
  case False
  then have n: "length a < 15" by simp
  then have "take 15 a \<noteq> ''[HISTORY:MOVED:''"
    by (auto dest: arg_cong [where f = length])
  moreover have "take 15 (a @ l # b) \<noteq> ''[HISTORY:MOVED:''"
  proof
    assume e: "take 15 (a @ l # b) = ''[HISTORY:MOVED:''"
    from n obtain k where "15 - length a = Suc k" by (cases "15 - length a") auto
    then have "l \<in> set (take 15 (a @ l # b))" by simp
    with e have "l \<in> set ''[HISTORY:MOVED:''" by simp
    with assms show False by (auto simp: is_line_terminator_def)
  qed
  ultimately show ?thesis by simp
qed

lemma match_at_append:
  assumes "is_line_terminator l"
  shows "match_at (a @ l # b)
           = (case match_at a of None \<Rightarrow> None | Some (d, m, rest) \<Rightarrow> Some (d, m, rest @ l # b))"
proof (cases "take 15 a = ''[HISTORY:MOVED:''")
  case False
  with take_tag_append [OF assms, of a b] show ?thesis by (simp add: match_at_def)
next
  case True
  then have "length (take 15 a) = 15" by simp
  then have "15 \<le> length a" by simp
  then have d: "drop 15 (a @ l # b) = drop 15 a @ l # b" by simp
  from True take_tag_append [OF assms, of a b]
  have t: "take 15 (a @ l # b) = ''[HISTORY:MOVED:''" by simp
  show ?thesis
    unfolding match_at_def d
    by (simp only: t True if_True lazy_date_append [OF assms])
       (simp add: takeWhile_line [OF assms] dropWhile_line [OF assms] split: option.splits)
qed

lemma history_matches_append:
  assumes "is_line_terminator l"
  shows "history_matches (a @ l # b) = history_matches a @ history_matches b"
proof (induction a rule: history_matches.induct)
  case (1 s)
  show ?case
  proof (cases s)
    case Nil
    from assms have "l \<noteq> CHR ''[''" by (auto simp: is_line_terminator_def)
    with Nil show ?thesis by (simp add: history_matches_other history_matches_Nil)
  next
    case (Cons c cs)
    show ?thesis
    proof (cases "match_at s")
      case None
      have ne: "s \<noteq> []" using Cons by simp
      from "1.IH"(1) [OF ne None] Cons
      have "history_matches (cs @ l # b) = history_matches cs @ history_matches b"
        by simp
      moreover from None have "match_at (s @ l # b) = None"
        by (simp add: match_at_append [OF assms])
      ultimately show ?thesis using None Cons by (simp add: history_matches_Cons)
    next
      case (Some x)
      obtain d m rest where x: "x = (d, m, rest)" by (cases x)
      have ne: "s \<noteq> []" using Cons by simp
      have "history_matches (rest @ l # b) = history_matches rest @ history_matches b"
        by (rule "1.IH"(2) [OF ne Some x [symmetric] refl])
      moreover from Some x have "match_at (s @ l # b) = Some (d, m, rest @ l # b)"
        by (simp add: match_at_append [OF assms])
      ultimately show ?thesis using Some x Cons by (simp add: history_matches_Cons)
    qed
  qed
qed

text \<open>A tag whose date has no \<open>]\<close> and whose message stays on one line reads back.\<close>

lemma lazy_date_tag:
  "\<forall>c\<in>set d. c \<noteq> CHR '']'' \<and> \<not> is_line_terminator c \<Longrightarrow>
     lazy_date (d @ ''] '' @ r) = Some (d, r)"
  by (induction d) auto

lemma takeWhile_all: "\<forall>c\<in>set m. P c \<Longrightarrow> takeWhile P m = m"
  by (induction m) auto

lemma dropWhile_all: "\<forall>c\<in>set m. P c \<Longrightarrow> dropWhile P m = []"
  by (induction m) auto

lemma match_at_tag:
  assumes "\<forall>c\<in>set d. c \<noteq> CHR '']'' \<and> \<not> is_line_terminator c"
    and "\<forall>c\<in>set m. \<not> is_line_terminator c"
  shows "match_at (''[HISTORY:MOVED:'' @ d @ ''] '' @ m) = Some (d, m, [])"
  using lazy_date_tag [OF assms(1), of m] takeWhile_all [OF assms(2)] dropWhile_all [OF assms(2)]
  by (simp add: match_at_def)

lemma history_matches_tag:
  assumes "\<forall>c\<in>set d. c \<noteq> CHR '']'' \<and> \<not> is_line_terminator c"
    and "\<forall>c\<in>set m. \<not> is_line_terminator c"
  shows "history_matches (''[HISTORY:MOVED:'' @ d @ ''] '' @ m) = [(d, m)]"
proof -
  have "history_matches (CHR ''['' # ''HISTORY:MOVED:'' @ d @ ''] '' @ m) = [(d, m)]"
    using match_at_tag [OF assms]
    by (subst history_matches_Cons) (simp add: history_matches_Nil)
  then show ?thesis by simp
qed

lemma history_matches_appended_line:
  assumes "\<forall>c\<in>set d. c \<noteq> CHR '']'' \<and> \<not> is_line_terminator c"
    and "\<forall>c\<in>set m. \<not> is_line_terminator c"
  shows "history_matches (pre @ [CHR 0x0A] @ ''[HISTORY:MOVED:'' @ d @ ''] '' @ m)
           = history_matches pre @ [(d, m)]"
proof -
  let ?tag = "''[HISTORY:MOVED:'' @ d @ ''] '' @ m"
  have lt: "is_line_terminator (CHR 0x0A)" by (simp add: is_line_terminator_def)
  have "history_matches (pre @ [CHR 0x0A] @ ?tag) = history_matches (pre @ CHR 0x0A # ?tag)"
    by simp
  also have "\<dots> = history_matches pre @ history_matches ?tag"
    by (rule history_matches_append [OF lt])
  also have "history_matches ?tag = [(d, m)]"
    by (rule history_matches_tag [OF assms])
  finally show ?thesis .
qed

section \<open>Writing a company change\<close>

lemma timeline_events_last:
  assumes "history_matches (contact_notes data) = hs @ [dm]"
  shows "\<exists>before. timeline_events q data camps = before @ [moved_item q dm]"
proof -
  from assms have "contact_notes data \<noteq> []" by (auto simp: history_matches_Nil)
  with assms show ?thesis by (simp add: timeline_events_def)
qed

text \<open>
  C5 (amended). A save appends a history line exactly when the last-saved company and the
  edited company are both non-empty and differ; otherwise the notes are saved as edited.
  The line is appended after a line feed to the notes as edited, which stay in front
  unchanged, and the result is what is persisted and shown. When the ISO date has no
  \<open>]\<close> and neither it nor the message has a line terminator, parsing the new notes
  gives the events of the notes as edited followed by one more, with that date string and
  that message; it is the last event of the timeline before sorting, a company-change
  event whose date is the parsed date string.
\<close>

theorem company_change_appends_one_history_line:
  "(companyChanged data formData \<longrightarrow>
      updatedNotes p data formData
        = contact_notes formData @ [CHR 0x0A] @ ''[HISTORY:MOVED:'' @ toISOString p (clock p 0)
            @ ''] '' @ moved_message data formData)
   \<and> (\<not> companyChanged data formData \<longrightarrow> updatedNotes p data formData = contact_notes formData)
   \<and> map_of (fst (handleSave p data formData)) ''notes'' = Some (JStr (updatedNotes p data formData))
   \<and> contact_notes (snd (handleSave p data formData)) = updatedNotes p data formData
   \<and> (companyChanged data formData
        \<and> (\<forall>c\<in>set (toISOString p (clock p 0)). c \<noteq> CHR '']'' \<and> \<not> is_line_terminator c)
        \<and> (\<forall>c\<in>set (moved_message data formData). \<not> is_line_terminator c) \<longrightarrow>
      history_matches (updatedNotes p data formData)
        = history_matches (contact_notes formData)
            @ [(toISOString p (clock p 0), moved_message data formData)]
      \<and> (\<exists>before. timeline_events q (snd (handleSave p data formData)) camps
             = before @ [moved_item q (toISOString p (clock p 0), moved_message data formData)])
      \<and> item_type (moved_item q (toISOString p (clock p 0), moved_message data formData)) = ''job_change''
      \<and> item_date (moved_item q (toISOString p (clock p 0), moved_message data formData))
           = parseDate q (toISOString p (clock p 0))
      \<and> item_description (moved_item q (toISOString p (clock p 0), moved_message data formData))
           = moved_message data formData)"
proof (intro conjI impI)
  show "map_of (fst (handleSave p data formData)) ''notes'' = Some (JStr (updatedNotes p data formData))"
    by (simp add: handleSave_def Let_def)
  show n: "contact_notes (snd (handleSave p data formData)) = updatedNotes p data formData"
    by (simp add: handleSave_def Let_def)
  assume a: "companyChanged data formData
        \<and> (\<forall>c\<in>set (toISOString p (clock p 0)). c \<noteq> CHR '']'' \<and> \<not> is_line_terminator c)
        \<and> (\<forall>c\<in>set (moved_message data formData). \<not> is_line_terminator c)"
  then have u: "updatedNotes p data formData
        = contact_notes formData @ [CHR 0x0A] @ ''[HISTORY:MOVED:'' @ toISOString p (clock p 0)
            @ ''] '' @ moved_message data formData"
    by (simp add: updatedNotes_def)
  from a have d: "\<forall>c\<in>set (toISOString p (clock p 0)). c \<noteq> CHR '']'' \<and> \<not> is_line_terminator c"
    and m: "\<forall>c\<in>set (moved_message data formData). \<not> is_line_terminator c" by simp_all
  show h: "history_matches (updatedNotes p data formData)
        = history_matches (contact_notes formData)
            @ [(toISOString p (clock p 0), moved_message data formData)]"
    unfolding u by (rule history_matches_appended_line [OF d m])
  show "\<exists>before. timeline_events q (snd (handleSave p data formData)) camps
             = before @ [moved_item q (toISOString p (clock p 0), moved_message data formData)]"
    by (rule timeline_events_last) (simp only: n h)
qed (simp_all add: updatedNotes_def moved_item_def)

lemmas contact_defs =
  initech_bob_def acme_bob_def no_company_bob_def two_line_bob_def saved_bob_def noted_bob_def
  companyChanged_def moved_message_def updatedNotes_def

lemma history_matches_fair: "history_matches ''met at the fair'' = []"
  by (simp add: history_matches_other history_matches_Nil)

lemma save_example: "snd (handleSave example_platform initech_bob acme_bob) = saved_bob"
  by (simp add: handleSave_def Let_def contact_defs example_defs)

theorem company_change_appends_one_history_line_witness:
  "companyChanged initech_bob acme_bob
   \<and> list_all (\<lambda>c. c \<noteq> CHR '']'' \<and> \<not> is_line_terminator c)
        (toISOString example_platform (clock example_platform 0))
   \<and> list_all (\<lambda>c. \<not> is_line_terminator c) (moved_message initech_bob acme_bob)
   \<and> updatedNotes example_platform initech_bob acme_bob
       = ''met at the fair'' @ [CHR 0x0A]
          @ ''[HISTORY:MOVED:2024-06-01T00:00:00.000Z] Mudou da empresa Initech para Acme''
   \<and> history_matches (updatedNotes example_platform initech_bob acme_bob)
       = [(''2024-06-01T00:00:00.000Z'', ''Mudou da empresa Initech para Acme'')]
   \<and> item_date (moved_item example_platform
        (toISOString example_platform (clock example_platform 0), moved_message initech_bob acme_bob))
       = Some (clock example_platform 0)
   \<and> \<not> companyChanged acme_bob acme_bob
   \<and> updatedNotes example_platform acme_bob acme_bob = contact_notes acme_bob"
proof -
  note T = company_change_appends_one_history_line
             [where p = example_platform and q = example_platform and camps = "[]"]
  have c: "companyChanged initech_bob acme_bob" by (simp add: contact_defs example_defs)
  have d: "\<forall>c\<in>set (toISOString example_platform (clock example_platform 0)).
         c \<noteq> CHR '']'' \<and> \<not> is_line_terminator c"
    by (simp add: example_defs is_line_terminator_def)
  have m: "\<forall>c\<in>set (moved_message initech_bob acme_bob). \<not> is_line_terminator c"
    by (simp add: contact_defs example_defs is_line_terminator_def)
  have n: "\<not> companyChanged acme_bob acme_bob" by (simp add: contact_defs)
  note T1 = T [of initech_bob acme_bob]
  from T1 [THEN conjunct1, rule_format, OF c]
  have 1: "updatedNotes example_platform initech_bob acme_bob
       = ''met at the fair'' @ [CHR 0x0A]
          @ ''[HISTORY:MOVED:2024-06-01T00:00:00.000Z] Mudou da empresa Initech para Acme''"
    by (simp add: contact_defs example_defs)
  from T1 [THEN conjunct2, THEN conjunct2, THEN conjunct2, THEN conjunct2, rule_format, OF conjI [OF c conjI [OF d m]]]
  have 2: "history_matches (updatedNotes example_platform initech_bob acme_bob)
       = [(''2024-06-01T00:00:00.000Z'', ''Mudou da empresa Initech para Acme'')]"
    and 3: "item_date (moved_item example_platform
        (toISOString example_platform (clock example_platform 0), moved_message initech_bob acme_bob))
       = Some (clock example_platform 0)"
    by (simp_all add: history_matches_fair contact_defs example_defs)
  from T [of acme_bob acme_bob, THEN conjunct2, THEN conjunct1, rule_format, OF n]
  have 4: "updatedNotes example_platform acme_bob acme_bob = contact_notes acme_bob" .
  from c d [folded list_all_iff] m [folded list_all_iff] 1 2 3 n 4 show ?thesis by (intro conjI)
qed

theorem company_change_appends_one_history_line_counterexample:
  "contact_company no_company_bob \<noteq> contact_company acme_bob
   \<and> updatedNotes example_platform no_company_bob acme_bob = contact_notes acme_bob
   \<and> history_matches (updatedNotes example_platform no_company_bob acme_bob) = []
   \<and> contact_company initech_bob \<noteq> contact_company two_line_bob
   \<and> moved_message initech_bob two_line_bob
       = ''Mudou da empresa Initech para Acme'' @ [CHR 0x0A] @ ''Corp''
   \<and> history_matches (updatedNotes example_platform initech_bob two_line_bob)
       = [(''2024-06-01T00:00:00.000Z'', ''Mudou da empresa Initech para Acme'')]"
proof -
  have lt: "is_line_terminator (CHR 0x0A)" by (simp add: is_line_terminator_def)
  have corp: "history_matches ''Corp'' = []"
    by (simp add: history_matches_other history_matches_Nil)
  have tag: "history_matches (''[HISTORY:MOVED:'' @ ''2024-06-01T00:00:00.000Z'' @ ''] ''
                @ ''Mudou da empresa Initech para Acme'')
      = [(''2024-06-01T00:00:00.000Z'', ''Mudou da empresa Initech para Acme'')]"
    by (rule history_matches_tag) (simp_all add: is_line_terminator_def)
  have "updatedNotes example_platform initech_bob two_line_bob
      = ''met at the fair'' @ CHR 0x0A
          # ((''[HISTORY:MOVED:'' @ ''2024-06-01T00:00:00.000Z'' @ ''] ''
                @ ''Mudou da empresa Initech para Acme'') @ CHR 0x0A # ''Corp'')"
    by (simp add: contact_defs example_defs)
  then have "history_matches (updatedNotes example_platform initech_bob two_line_bob)
      = [(''2024-06-01T00:00:00.000Z'', ''Mudou da empresa Initech para Acme'')]"
    by (simp only: history_matches_append [OF lt] history_matches_fair tag corp append_Nil append_Nil2)
  moreover have "contact_company no_company_bob \<noteq> contact_company acme_bob"
    "updatedNotes example_platform no_company_bob acme_bob = contact_notes acme_bob"
    "history_matches (updatedNotes example_platform no_company_bob acme_bob) = []"
    "contact_company initech_bob \<noteq> contact_company two_line_bob"
    "moved_message initech_bob two_line_bob
       = ''Mudou da empresa Initech para Acme'' @ [CHR 0x0A] @ ''Corp''"
    by (simp_all add: contact_defs example_defs history_matches_fair)
  ultimately show ?thesis by (intro conjI)
qed

section \<open>The orders on examples\<close>

lemmas sort_eval =
  js_sort_def sort_compare_def newest_first_def task_compare_def time_diff_def
  creation_item_def joined_item_def done_item_def moved_item_def recipient_def

lemma history_matches_noted:
  "history_matches (contact_notes noted_bob)
     = [(''soon'', ''leaving Initech''),
        (''2024-03-01T00:00:00.000Z'', ''Mudou da empresa Initech para Acme'')]"
proof -
  have 1: "history_matches (''[HISTORY:MOVED:'' @ ''soon'' @ ''] '' @ ''leaving Initech'')
             = [(''soon'', ''leaving Initech'')]"
    by (rule history_matches_tag) (simp_all add: is_line_terminator_def)
  have 2: "history_matches ((''[HISTORY:MOVED:'' @ ''soon'' @ ''] '' @ ''leaving Initech'') @ [CHR 0x0A]
             @ ''[HISTORY:MOVED:'' @ ''2024-03-01T00:00:00.000Z'' @ ''] ''
             @ ''Mudou da empresa Initech para Acme'')
          = history_matches (''[HISTORY:MOVED:'' @ ''soon'' @ ''] '' @ ''leaving Initech'')
             @ [(''2024-03-01T00:00:00.000Z'', ''Mudou da empresa Initech para Acme'')]"
    by (rule history_matches_appended_line) (simp_all add: is_line_terminator_def)
  have n: "contact_notes noted_bob
      = (''[HISTORY:MOVED:'' @ ''soon'' @ ''] '' @ ''leaving Initech'') @ [CHR 0x0A]
             @ ''[HISTORY:MOVED:'' @ ''2024-03-01T00:00:00.000Z'' @ ''] ''
             @ ''Mudou da empresa Initech para Acme''"
    by (simp add: contact_defs)
  show ?thesis unfolding n 2 1 by simp
qed

lemma timeline_events_noted:
  "timeline_events example_platform noted_bob [stepless_campaign]
     = [creation_item (Some 1717200000000),
        joined_item (Some 1704067200000) stepless_campaign,
        moved_item example_platform (''soon'', ''leaving Initech''),
        moved_item example_platform
          (''2024-03-01T00:00:00.000Z'', ''Mudou da empresa Initech para Acme'')]"
proof -
  have "contact_notes noted_bob \<noteq> []" by (simp add: contact_defs)
  then show ?thesis
    by (simp add: timeline_events_def history_matches_noted push_related_def campaign_start_def
          stepless_campaign_def example_defs)
qed

text \<open>
  C6 as stated fails when a tag carries something that is no date: the events of the
  campaign of 2024-01-01, of the undated tag and of the tag of 2024-03-01 stay in insertion
  order, the older event before the newer one.
\<close>

theorem timeline_newest_first_and_stable_on_valid_dates_counterexample:
  "map item_date (timelineItems example_platform noted_bob [stepless_campaign])
     = [Some 1717200000000, Some 1704067200000, None, Some 1709251200000]
   \<and> (1704067200000 :: int) < 1709251200000"
  unfolding timelineItems_def timeline_events_noted
  by (simp add: sort_eval example_defs)

lemma history_matches_saved:
  "history_matches (contact_notes saved_bob)
     = [(''2024-06-01T00:00:00.000Z'', ''Mudou da empresa Initech para Acme'')]"
proof -
  have 2: "history_matches (''met at the fair'' @ [CHR 0x0A]
             @ ''[HISTORY:MOVED:'' @ ''2024-06-01T00:00:00.000Z'' @ ''] ''
             @ ''Mudou da empresa Initech para Acme'')
          = history_matches ''met at the fair''
             @ [(''2024-06-01T00:00:00.000Z'', ''Mudou da empresa Initech para Acme'')]"
    by (rule history_matches_appended_line) (simp_all add: is_line_terminator_def)
  have n: "contact_notes saved_bob
      = ''met at the fair'' @ [CHR 0x0A]
             @ ''[HISTORY:MOVED:'' @ ''2024-06-01T00:00:00.000Z'' @ ''] ''
             @ ''Mudou da empresa Initech para Acme''"
    by (simp add: contact_defs)
  show ?thesis unfolding n 2 history_matches_fair by simp
qed

lemma timeline_events_saved:
  "timeline_events example_platform saved_bob [example_campaign]
     = [creation_item (Some 1717200000000),
        joined_item (Some 1704067200000) example_campaign,
        done_item (Some 1704240000000) email_step,
        done_item (Some 1704499200000) wait_step,
        moved_item example_platform
          (''2024-06-01T00:00:00.000Z'', ''Mudou da empresa Initech para Acme'')]"
proof -
  have "contact_notes saved_bob \<noteq> []" "contact_name saved_bob = ''Bob''" by (simp_all add: contact_defs)
  then show ?thesis
    by (simp add: timeline_events_def history_matches_saved push_related_def push_done_def
          campaign_start_def example_defs)
qed

theorem timeline_newest_first_and_stable_on_valid_dates_witness:
  "list_all (\<lambda>e. item_date e \<noteq> None) (timeline_events example_platform saved_bob [example_campaign])
   \<and> sorted_wrt (\<lambda>a b. \<exists>x y. item_date a = Some x \<and> item_date b = Some y \<and> y \<le> x)
        (timelineItems example_platform saved_bob [example_campaign])
   \<and> map item_id (timelineItems example_platform saved_bob [example_campaign])
       = [''creation'', ''hist-2024-06-01T00:00:00.000Z'', ''task-s2'', ''task-s1'', ''camp-c1'']"
proof -
  have h: "\<forall>e\<in>set (timeline_events example_platform saved_bob [example_campaign]). item_date e \<noteq> None"
    unfolding timeline_events_saved by (simp add: sort_eval example_defs)
  have "map item_id (timelineItems example_platform saved_bob [example_campaign])
       = [''creation'', ''hist-2024-06-01T00:00:00.000Z'', ''task-s2'', ''task-s1'', ''camp-c1'']"
    unfolding timelineItems_def timeline_events_saved by (simp add: sort_eval example_defs)
  with h [folded list_all_iff] timeline_newest_first_and_stable_on_valid_dates [OF h, THEN conjunct1]
  show ?thesis by (intro conjI)
qed

lemma allTasks_far:
  "allTasks example_platform (Some example_profile) [far_campaign]
     = [mk_task example_platform (Some 1704067200000) far_campaign (email_step\<lparr>step_day := 3\<rparr>),
        mk_task example_platform (Some 1704067200000) far_campaign
          (email_step\<lparr>step_id := ''s2'', step_day := 1000000000\<rparr>),
        mk_task example_platform (Some 1704067200000) far_campaign
          (email_step\<lparr>step_id := ''s3'', step_day := 2\<rparr>)]"
  by (simp add: allTasks_def push_campaign_def campaign_start_def push_step_def currentUserName_def
        example_profile_def far_campaign_def example_defs)

text \<open>
  C7 as stated fails when a due date is invalid: with a step a thousand million days out
  between them, the task due on 2024-01-04 stays before the task due on 2024-01-03.
\<close>

theorem displayed_tasks_sorted_stably_counterexample:
  "map task_date (displayedTasks example_platform All ByDate
                   (allTasks example_platform (Some example_profile) [far_campaign]))
     = [Some 1704326400000, None, Some 1704240000000]
   \<and> (1704240000000 :: int) < 1704326400000"
  unfolding allTasks_far displayedTasks_def
  by (simp add: keep_task_def sort_eval far_campaign_def example_defs)

theorem displayed_tasks_sorted_stably_witness:
  "list_all (\<lambda>t. task_date t \<noteq> None)
     (allTasks example_platform (Some example_profile) [example_campaign])
   \<and> consistent_on (task_compare example_platform ByRecipient)
        (set (allTasks example_platform (Some example_profile) [example_campaign]))
   \<and> sorted_wrt (\<lambda>a b. \<exists>x y. task_date a = Some x \<and> task_date b = Some y \<and> x \<le> y)
        (displayedTasks example_platform All ByDate
           (allTasks example_platform (Some example_profile) [example_campaign]))
   \<and> sorted_wrt (\<lambda>a b. localeCompare example_platform (recipient a) (recipient b) \<le> 0)
        (displayedTasks example_platform All ByRecipient
           (allTasks example_platform (Some example_profile) [example_campaign]))
   \<and> map task_id (displayedTasks example_platform All ByDate
           (allTasks example_platform (Some example_profile) [example_campaign])) = [''s1'', ''s3'']
   \<and> map recipient (displayedTasks example_platform All ByRecipient
           (allTasks example_platform (Some example_profile) [example_campaign])) = [''Acme'', ''Bob'']"
proof -
  let ?ts = "allTasks example_platform (Some example_profile) [example_campaign]"
  have h1: "\<forall>t\<in>set ?ts. task_date t \<noteq> None"
    unfolding allTasks_example by (simp add: example_defs)
  have h2: "consistent_on (task_compare example_platform ByRecipient) (set ?ts)"
    unfolding allTasks_example consistent_on_def before_def
    by (simp add: sort_eval example_defs)
  note T = displayed_tasks_sorted_stably [where p = example_platform and ts = ?ts and flt = All]
  from T [THEN conjunct1, THEN mp, OF h1, THEN conjunct1]
  have 1: "sorted_wrt (\<lambda>a b. \<exists>x y. task_date a = Some x \<and> task_date b = Some y \<and> x \<le> y)
        (displayedTasks example_platform All ByDate ?ts)" .
  from T [THEN conjunct2, THEN conjunct1, THEN mp, OF h2, THEN conjunct1]
  have 2: "sorted_wrt (\<lambda>a b. localeCompare example_platform (recipient a) (recipient b) \<le> 0)
        (displayedTasks example_platform All ByRecipient ?ts)" .
  have 3: "map task_id (displayedTasks example_platform All ByDate ?ts) = [''s1'', ''s3'']"
    unfolding allTasks_example displayedTasks_def
    by (simp add: keep_task_def sort_eval example_defs)
  have 4: "map recipient (displayedTasks example_platform All ByRecipient ?ts) = [''Acme'', ''Bob'']"
    unfolding allTasks_example displayedTasks_def
    by (simp add: keep_task_def sort_eval example_defs)
  from h1 [folded list_all_iff] h2 1 2 3 4 show ?thesis by (intro conjI)
qed

section \<open>Progress: two roundings and \<open>Math.round\<close>\<close>

text \<open>The relative error of one rounding, in the normal range, is at most \<open>2^-53\<close>.\<close>

lemma fl_error:
  assumes "0 < x" and "pow2 (- 1022) \<le> x"
  shows "\<bar>fl x - x\<bar> \<le> x / 2 ^ 53"
proof -
  let ?e = "floor_log2 x"
  let ?s = "pow2 (?e - 52)"
  have e: "- 1022 \<le> ?e" using floor_log2_ge [OF assms] .
  then have f: "fl x = of_int (round_half_even (x / ?s)) * ?s"
    using assms(1) by (simp add: fl_def Let_def max_def)
  have s: "0 < ?s" by (rule pow2_pos)
  have "fl x - x = (of_int (round_half_even (x / ?s)) - x / ?s) * ?s"
    using s by (simp add: f field_simps)
  then have "\<bar>fl x - x\<bar> = \<bar>of_int (round_half_even (x / ?s)) - x / ?s\<bar> * ?s"
    using s by (simp add: abs_mult)
  also have "\<dots> \<le> 1 / 2 * ?s"
    using round_half_even_close [of "x / ?s"] s by (intro mult_right_mono) simp_all
  also have "\<dots> = pow2 ?e / 2 ^ 53"
  proof -
    have "?s = pow2 ?e / pow2 52" by (rule pow2_diff)
    also have "pow2 52 = 2 ^ 52" by (simp add: pow2_def)
    finally show ?thesis by simp
  qed
  also have "\<dots> \<le> x / 2 ^ 53"
    using floor_log2_bounds(1) [OF assms(1)] by (simp add: divide_right_mono)
  finally show ?thesis .
qed

text \<open>The two roundings of the progress formula together move the percentage by less than \<open>2^-45\<close>.\<close>

lemma percent_product_error:
  assumes "0 < k" and "k \<le> n" and "n < 2 ^ 32"
  shows "\<bar>number_multiply (number_divide (of_nat k) (of_nat n)) 100 - 100 * of_nat k / of_nat n\<bar>
           < 1 / 2 ^ 45"
proof -
  let ?r = "of_nat k / of_nat n :: rat"
  let ?u = "1 / 2 ^ 53 :: rat"
  from assms have n: "0 < n" by simp
  have r_pos: "0 < ?r" using assms(1) n by simp
  have r_le: "?r \<le> 1" using assms(2) n by simp
  have "(1 :: rat) / 2 ^ 32 \<le> 1 / of_nat n"
  proof -
    have "(of_nat n :: rat) \<le> 2 ^ 32" using assms(3) by (metis less_imp_le of_nat_le_iff of_nat_numeral of_nat_power)
    then show ?thesis using n by (simp add: frac_le)
  qed
  also have "\<dots> \<le> ?r" using assms(1) n by (simp add: divide_right_mono)
  finally have r_ge: "1 / 2 ^ 32 \<le> ?r" .
  have small: "pow2 (- 1022) \<le> 1 / 2 ^ 32"
    by (simp add: pow2_def)
  have e1: "\<bar>fl ?r - ?r\<bar> \<le> ?r * ?u"
    using fl_error [OF r_pos] small r_ge by simp
  let ?p = "fl ?r * 100"
  have p_lo: "?r * 100 * (1 - ?u) \<le> ?p" using e1 by (simp add: abs_le_iff algebra_simps)
  have p_hi: "?p \<le> ?r * 100 * (1 + ?u)" using e1 by (simp add: abs_le_iff algebra_simps)
  have "?r \<le> ?r * 100 * (1 - ?u)" using r_pos by simp
  with p_lo have p_ge: "?r \<le> ?p" by simp
  with r_pos have p_pos: "0 < ?p" by simp
  have e2: "\<bar>fl ?p - ?p\<bar> \<le> ?p * ?u"
    using fl_error [OF p_pos] small r_ge p_ge by simp
  have "\<bar>fl ?p - 100 * ?r\<bar> \<le> \<bar>fl ?p - ?p\<bar> + \<bar>?p - 100 * ?r\<bar>" by simp
  also have "\<dots> \<le> ?p * ?u + 100 * ?r * ?u"
  proof -
    have eq: "?p - 100 * ?r = 100 * (fl ?r - ?r)" by (simp add: algebra_simps)
    have "\<bar>?p - 100 * ?r\<bar> = \<bar>100 * (fl ?r - ?r)\<bar>" by (simp only: eq)
    also have "\<dots> = \<bar>100\<bar> * \<bar>fl ?r - ?r\<bar>" by (rule abs_mult)
    also have "\<dots> = 100 * \<bar>fl ?r - ?r\<bar>" by simp
    also have "\<dots> \<le> 100 * (?r * ?u)" using e1 by (intro mult_left_mono) simp_all
    finally have "\<bar>?p - 100 * ?r\<bar> \<le> 100 * ?r * ?u" by simp
    with e2 show ?thesis by (intro add_mono)
  qed
  also have "\<dots> \<le> ?r * 100 * (1 + ?u) * ?u + 100 * ?r * ?u"
    using p_hi by (simp add: mult_right_mono)
  also have "\<dots> = ?r * (100 * (2 + ?u) * ?u)" by (simp add: algebra_simps)
  also have "\<dots> \<le> 1 * (100 * (2 + ?u) * ?u)"
    using r_le by (intro mult_right_mono) simp_all
  also have "\<dots> < 1 / 2 ^ 45" by simp
  finally show ?thesis by (simp add: number_multiply_def number_divide_def)
qed

text \<open>A value within \<open>1/D\<close> of the fraction \<open>N/D\<close> has its floor, or the floor below when \<open>D\<close> divides \<open>N\<close>.\<close>

lemma floor_near_fraction:
  fixes N D :: int and z :: rat
  assumes "0 < D" and "\<bar>z - of_int N / of_int D\<bar> < 1 / of_int D"
  shows "\<not> D dvd N \<Longrightarrow> \<lfloor>z\<rfloor> = N div D"
    and "\<lfloor>z\<rfloor> = N div D \<or> \<lfloor>z\<rfloor> = N div D - 1"
proof -
  let ?q = "N div D" and ?m = "N mod D"
  have D: "(0 :: rat) < of_int D" using assms(1) by simp
  have y: "of_int N / of_int D = (of_int ?q :: rat) + of_int ?m / of_int D"
  proof -
    have "N = D * ?q + ?m" by simp
    then have "(of_int N :: rat) = of_int D * of_int ?q + of_int ?m"
      by (metis of_int_add of_int_mult)
    then show ?thesis using D by (simp add: field_simps)
  qed
  have m: "0 \<le> ?m" "?m < D" using assms(1) by simp_all
  from assms(2) have lo: "of_int N / of_int D - 1 / of_int D < z"
    and hi: "z < of_int N / of_int D + 1 / of_int D" by (simp_all add: abs_less_iff)
  {
    assume "\<not> D dvd N"
    then have "?m \<noteq> 0" by (simp add: dvd_eq_mod_eq_0)
    with m have m1: "1 \<le> ?m" "?m \<le> D - 1" by simp_all
    then have "(1 :: rat) \<le> of_int ?m" "(of_int ?m :: rat) \<le> of_int D - 1"
      by (metis of_int_1 of_int_le_iff, metis of_int_1 of_int_diff of_int_le_iff)
    then have "1 / of_int D \<le> (of_int ?m :: rat) / of_int D"
      "(of_int ?m :: rat) / of_int D \<le> 1 - 1 / of_int D"
      using D by (simp_all add: field_simps)
    with lo hi y have "of_int ?q < z" "z < of_int ?q + 1" by simp_all
    then show "\<lfloor>z\<rfloor> = ?q" by (simp add: floor_eq_iff)
  }
  show "\<lfloor>z\<rfloor> = ?q \<or> \<lfloor>z\<rfloor> = ?q - 1"
  proof -
    have "(0 :: rat) \<le> of_int ?m" "(of_int ?m :: rat) \<le> of_int D - 1"
      using m by (metis of_int_0_le_iff, metis m(2) of_int_1 of_int_diff of_int_le_iff zle_diff1_eq)
    then have "0 \<le> (of_int ?m :: rat) / of_int D"
      "(of_int ?m :: rat) / of_int D \<le> 1 - 1 / of_int D"
      using D by (simp_all add: field_simps)
    moreover have "1 / (of_int D :: rat) \<le> 1"
    proof -
      from assms(1) have "1 \<le> D" by simp
      then have "(1 :: rat) \<le> of_int D" by simp
      then show ?thesis by simp
    qed
    ultimately have zl: "of_int ?q - 1 < z" and zh: "z < of_int ?q + 1" using lo hi y by simp_all
    from zl have "of_int (?q - 1) \<le> z" by simp
    then have a: "?q - 1 \<le> \<lfloor>z\<rfloor>" by (simp only: le_floor_iff)
    from zh have "z < of_int (?q + 1)" by simp
    then have b: "\<lfloor>z\<rfloor> < ?q + 1" by (simp only: floor_less_iff)
    from a b show ?thesis by linarith
  qed
qed

lemma floor_half: "\<lfloor>1 / 2 :: rat\<rfloor> = 0"
  by (simp add: floor_eq_iff)

lemma percent_zero: "percent 0 n = 0"
  by (simp add: percent_def number_divide_def number_multiply_def fl_def Math_round_def floor_half)

lemma spec_progress_floor:
  "spec_progress k n = (if n > 0 then \<lfloor>100 * of_nat k / of_nat n + 1 / 2 :: rat\<rfloor> else 0)"
  by (simp add: spec_progress_def round_half_away_def)

lemma percent_nonneg: "0 \<le> percent k n"
proof -
  have "0 \<le> number_multiply (number_divide (of_nat k) (of_nat n)) 100"
    by (simp add: number_multiply_def fl_nonneg)
  then have "(0 :: rat) \<le> number_multiply (number_divide (of_nat k) (of_nat n)) 100 + 1 / 2" by simp
  then show ?thesis unfolding percent_def Math_round_def by (simp only: zero_le_floor)
qed

lemma percent_rounding:
  assumes "0 < n" and "k \<le> n" and "n < 2 ^ 32"
  shows "100 * of_nat k / of_nat n + 1 / 2 \<notin> (\<int> :: rat set) \<Longrightarrow> percent k n = spec_progress k n"
    and "percent k n = spec_progress k n \<or> percent k n = spec_progress k n - 1"
    and "spec_progress k n \<le> 100"
proof -
  let ?N = "200 * int k + int n" and ?D = "2 * int n"
  let ?y = "100 * of_nat k / of_nat n + 1 / 2 :: rat"
  have D: "0 < ?D" using assms(1) by simp
  have y: "?y = of_int ?N / of_int ?D" using assms(1) by (simp add: field_simps)
  have sp: "spec_progress k n = ?N div ?D"
  proof -
    have "spec_progress k n = \<lfloor>?y\<rfloor>" using assms(1) by (simp add: spec_progress_floor)
    also have "\<dots> = \<lfloor>(of_int ?N :: rat) / of_int ?D\<rfloor>" by (simp only: y)
    also have "\<dots> = ?N div ?D" by (rule floor_divide_of_int_eq)
    finally show ?thesis .
  qed
  show "spec_progress k n \<le> 100"
  proof -
    have "(of_nat k :: rat) \<le> of_nat n" using assms(2) by simp
    then have "?y < 101" using assms(1) by (simp add: field_simps)
    then have "\<lfloor>?y\<rfloor> < 101" by (simp only: floor_less_iff of_int_numeral)
    then show ?thesis using assms(1) by (simp add: spec_progress_floor)
  qed
  have main: "(\<not> ?D dvd ?N \<longrightarrow> percent k n = spec_progress k n)
      \<and> (percent k n = spec_progress k n \<or> percent k n = spec_progress k n - 1)"
  proof (cases "k = 0")
    case True
    then have "spec_progress k n = 0" using assms(1) by (simp add: spec_progress_floor floor_half)
    with True show ?thesis by (simp add: percent_zero)
  next
    case False
    then have k: "0 < k" by simp
    let ?x = "number_multiply (number_divide (of_nat k) (of_nat n)) 100"
    have "(of_int ?D :: rat) \<le> 2 ^ 45"
    proof -
      have "?D \<le> 2 ^ 33" using assms(3) by simp
      also have "\<dots> \<le> (2 :: int) ^ 45" by simp
      finally have "?D \<le> 2 ^ 45" .
      then have "(of_int ?D :: rat) \<le> of_int (2 ^ 45)" by (simp only: of_int_le_iff)
      then show ?thesis by simp
    qed
    then have "1 / (2 :: rat) ^ 45 \<le> 1 / of_int ?D" using D by (intro divide_left_mono) simp_all
    with percent_product_error [OF k assms(2,3)]
    have "\<bar>?x - 100 * of_nat k / of_nat n\<bar> < 1 / of_int ?D" by simp
    then have c: "\<bar>(?x + 1 / 2) - of_int ?N / of_int ?D\<bar> < 1 / of_int ?D"
      by (simp only: y [symmetric]) 
    have p: "percent k n = \<lfloor>?x + 1 / 2\<rfloor>" by (simp add: percent_def Math_round_def)
    have a: "percent k n = spec_progress k n \<or> percent k n = spec_progress k n - 1"
      using floor_near_fraction(2) [OF D c] by (simp only: p sp)
    have b: "percent k n = spec_progress k n" if "\<not> ?D dvd ?N"
      using floor_near_fraction(1) [OF D c that] by (simp only: p sp)
    from a b show ?thesis by blast
  qed
  then have near: "percent k n = spec_progress k n \<or> percent k n = spec_progress k n - 1"
    and exact: "\<not> ?D dvd ?N \<Longrightarrow> percent k n = spec_progress k n" by simp_all
  show "percent k n = spec_progress k n \<or> percent k n = spec_progress k n - 1" by (rule near)
  assume nt: "?y \<notin> (\<int> :: rat set)"
  have "\<not> ?D dvd ?N"
  proof
    assume "?D dvd ?N"
    then obtain m where "?N = ?D * m" ..
    then have "(of_int ?N :: rat) = of_int ?D * of_int m" by (metis of_int_mult)
    then have "?y = of_int m" using D by (simp only: y) simp
    with nt show False by simp
  qed
  then show "percent k n = spec_progress k n" by (rule exact)
qed

lemma completedSteps_le: "completedSteps ss \<le> length (activeSteps ss)"
  by (simp add: completedSteps_def)

lemma length_activeSteps_le: "length (activeSteps ss) \<le> length ss"
  by (simp add: activeSteps_def)

lemma save_aggregates_steps:
  "save_aggregates st =
     (let ss = (case st of None \<Rightarrow> [] | Some l \<Rightarrow> l)
      in (completedSteps ss, reduce_points ss,
          if length (activeSteps ss) > 0
          then percent (completedSteps ss) (length (activeSteps ss)) else 0))"
  by (cases st)
     (simp_all add: save_aggregates_Some Let_def save_aggregates_def completedSteps_def
        activeSteps_def reduce_points_def)

text \<open>
  What holds of the two numbers in general. A save stores as \<open>sent\<close> the number \<open>k\<close> of completed non-Wait steps
  and as \<open>progress\<close> the value of \<open>Math.round((k / n) * 100)\<close> in binary64 arithmetic,
  \<open>n\<close> being the number of non-Wait steps. For a step list of fewer than \<open>2^32\<close>
  elements that value lies in \<open>[0, 100]\<close>; it is the percentage \<open>100k/n\<close> rounded to
  the nearest integer whenever the percentage is not exactly half-way between two
  integers, and at a half-way percentage it is that rounding (half away from zero) or the
  integer below it. With no non-Wait step both numbers are 0.
\<close>

theorem save_stores_sent_count_and_rounded_progress:
  assumes "truthy uid" and "ss = (case camp_steps c of None \<Rightarrow> [] | Some l \<Rightarrow> l)"
    and "length ss < 2 ^ 32"
    and "k = completedSteps ss" and "n = length (activeSteps ss)"
  shows "\<exists>pl g. handleSaveCampaign p uid c = Some pl
      \<and> map_of pl ''sent'' = Some (JNum (int k)) \<and> map_of pl ''progress'' = Some (JNum g)
      \<and> 0 \<le> g \<and> g \<le> 100
      \<and> (n = 0 \<longrightarrow> g = 0 \<and> k = 0)
      \<and> (100 * of_nat k / of_nat n + 1 / 2 \<notin> (\<int> :: rat set) \<longrightarrow> g = spec_progress k n)
      \<and> (g = spec_progress k n \<or> g = spec_progress k n - 1)"
proof -
  let ?g = "if n > 0 then percent k n else 0"
  have agg: "save_aggregates (camp_steps c) = (k, reduce_points ss, ?g)"
    using assms(2,4,5) by (simp add: save_aggregates_steps Let_def)
  from handleSaveCampaign_Some [OF assms(1), of p c] obtain pl where
    pl: "handleSaveCampaign p uid c = Some pl" "map_of pl ''sent'' = Some (JNum (int k))"
      "map_of pl ''progress'' = Some (JNum ?g)"
    unfolding agg by auto
  have kn: "k \<le> n" using assms(4,5) by (simp add: completedSteps_le)
  have n32: "n < 2 ^ 32" using assms(3,5) length_activeSteps_le [of ss] by simp
  have rest: "0 \<le> ?g \<and> ?g \<le> 100 \<and> (n = 0 \<longrightarrow> ?g = 0 \<and> k = 0)
      \<and> (100 * of_nat k / of_nat n + 1 / 2 \<notin> (\<int> :: rat set) \<longrightarrow> ?g = spec_progress k n)
      \<and> (?g = spec_progress k n \<or> ?g = spec_progress k n - 1)"
  proof (cases "n = 0")
    case True
    with kn show ?thesis by (simp add: spec_progress_def)
  next
    case False
    then have n: "0 < n" by simp
    note R = percent_rounding [OF n kn n32]
    from R(2,3) have "percent k n \<le> 100" by auto
    with n R percent_nonneg [of k n] show ?thesis by simp
  qed
  from pl rest show ?thesis
    by (intro exI [of _ pl] exI [of _ ?g]) (elim conjE, intro conjI; assumption)
qed

lemma percent_23_40: "percent 23 40 = 57"
  by code_simp

lemma long_steps_counts:
  "completedSteps long_steps = 23" "length (activeSteps long_steps) = 40" "length long_steps = 40"
  by (simp_all add: long_steps_def completedSteps_def activeSteps_def example_defs o_def)

text \<open>
  C1. The stored progress is not always the percentage rounded half away from zero: with
  23 of 40 active steps completed the percentage is 57.5 and its rounding is 58, but the
  quotient \<open>23/40\<close> rounds to a binary64 value whose product with 100 rounds to the
  binary64 value just below 57.5, and \<open>Math.round\<close> stores 57.
\<close>

theorem progress_of_23_in_40_is_57_not_58:
  "completedSteps long_steps = 23 \<and> length (activeSteps long_steps) = 40
   \<and> map_of (the (handleSaveCampaign example_platform (Some ''u1'') long_campaign)) ''progress''
       = Some (JNum 57)
   \<and> round_half_away (100 * 23 / 40) = 58"
proof -
  have u: "truthy (Some ''u1'')" by (simp add: truthy_def)
  have "save_aggregates (camp_steps long_campaign) = (23, reduce_points long_steps, 57)"
    by (simp add: long_campaign_def save_aggregates_Some long_steps_counts percent_23_40)
  with handleSaveCampaign_Some [OF u, of example_platform long_campaign]
  have "map_of (the (handleSaveCampaign example_platform (Some ''u1'') long_campaign)) ''progress''
       = Some (JNum 57)" by auto
  moreover have "round_half_away (100 * 23 / 40) = 58"
    by (simp add: round_half_away_def floor_eq_iff)
  ultimately show ?thesis using long_steps_counts(1,2) by (intro conjI)
qed

theorem save_stores_sent_count_and_rounded_progress_witness:
  "truthy (Some ''u1'') \<and> length example_steps < 2 ^ 32
   \<and> 100 * of_nat 1 / of_nat 2 + 1 / 2 \<notin> (\<int> :: rat set)
   \<and> (\<exists>pl. handleSaveCampaign example_platform (Some ''u1'') example_campaign = Some pl
         \<and> map_of pl ''sent'' = Some (JNum 1) \<and> map_of pl ''progress'' = Some (JNum 50))"
proof -
  have h1: "truthy (Some ''u1'')" by (simp add: truthy_def)
  have h2: "example_steps = (case camp_steps example_campaign of None \<Rightarrow> [] | Some l \<Rightarrow> l)"
    by (simp add: example_campaign_def)
  have h3: "length example_steps < 2 ^ 32" by (simp add: example_steps_def)
  have h4: "1 = completedSteps example_steps" and h5: "2 = length (activeSteps example_steps)"
    by (simp_all add: completedSteps_def activeSteps_def example_defs)
  have h6: "100 * of_nat 1 / of_nat 2 + 1 / 2 \<notin> (\<int> :: rat set)"
  proof
    assume "100 * of_nat 1 / of_nat 2 + 1 / 2 \<in> (\<int> :: rat set)"
    then obtain m where "(100 * of_nat 1 / of_nat 2 + 1 / 2 :: rat) = of_int m" by (auto elim: Ints_cases)
    then have "(of_int (2 * m) :: rat) = of_int 101" by simp
    then have "2 * m = 101" by (simp only: of_int_eq_iff)
    then show False by presburger
  qed
  have sp: "spec_progress 1 2 = 50"
    by (simp add: spec_progress_def round_half_away_def floor_eq_iff)
  from save_stores_sent_count_and_rounded_progress [OF h1 h2 h3 h4 h5, of example_platform]
  obtain pl g where "handleSaveCampaign example_platform (Some ''u1'') example_campaign = Some pl"
    "map_of pl ''sent'' = Some (JNum (int 1))" "map_of pl ''progress'' = Some (JNum g)"
    "100 * of_nat 1 / of_nat 2 + 1 / 2 \<notin> (\<int> :: rat set) \<longrightarrow> g = spec_progress 1 2"
    by (elim exE conjE) (rule that)
  with h6 sp have "\<exists>pl. handleSaveCampaign example_platform (Some ''u1'') example_campaign = Some pl
         \<and> map_of pl ''sent'' = Some (JNum 1) \<and> map_of pl ''progress'' = Some (JNum 50)"
    by auto
  with h1 h3 h6 show ?thesis by (intro conjI)
qed

end
